theory Spec2Isabelle
  imports Complex_Main "HOL-Library.Log_Nat"
begin

section \<open>JavaScript numbers: IEEE 754 binary64\<close>

text \<open>
  Every number in \<^verbatim>\<open>visualization.js\<close> is a JavaScript Number, that is an IEEE 754
  binary64 value. A finite value \<open>Fin sg m e\<close> has the sign \<open>sg\<close> (\<open>True\<close> for minus), the
  mantissa \<open>m\<close> and the exponent \<open>e\<close>, and stands for \<open>m * 2^e\<close> with that sign; zero has a
  sign as well, so \<open>Fin True 0 (-1074)\<close> is \<open>-0\<close>. All NaNs are one value.
\<close>

datatype double = NaN | Inf bool | Fin bool int int

text \<open>The exact value of a finite number; it is what the lemmas below speak about.\<close>

fun valof :: "double \<Rightarrow> rat" where
  "valof (Fin sg m e) = (if sg then - 1 else 1) * of_int m * 2 powi e"
| "valof _ = 0"

text \<open>
  The binary64 values: a mantissa of at most 53 bits with an exponent from \<open>-1074\<close> to
  \<open>971\<close>, the mantissa normalised to 53 bits unless the exponent is the least one
  (subnormal numbers and zero).
\<close>

fun is_double :: "double \<Rightarrow> bool" where
  "is_double (Fin sg m e) =
     (0 \<le> m \<and> m < 2 ^ 53 \<and> - 1074 \<le> e \<and> e \<le> 971 \<and> (2 ^ 52 \<le> m \<or> e = - 1074))"
| "is_double _ = True"

fun is_finite :: "double \<Rightarrow> bool" where
  "is_finite (Fin sg m e) = True"
| "is_finite _ = False"

text \<open>\<open>2^k\<close> for \<open>k \<ge> 0\<close> (and \<open>1\<close> below), by repeated squaring.\<close>

function pow2 :: "int \<Rightarrow> int" where
  "pow2 k = (if k \<le> 0 then 1
             else let h = pow2 (k div 2) in if even k then h * h else 2 * h * h)"
  by pat_completeness auto
termination
  by (relation "measure nat") auto

declare pow2.simps [simp del]

text \<open>The binary exponent of a positive fraction: \<open>2^k \<le> n / d < 2^(k + 1)\<close>.\<close>

definition frac_expo :: "int \<Rightarrow> int \<Rightarrow> int" where
  "frac_expo n d =
     (let k = bitlen n - bitlen d in if d * pow2 k \<le> n * pow2 (- k) then k else k - 1)"

text \<open>The integer nearest to \<open>n / d\<close>, ties to even.\<close>

definition rne_div :: "int \<Rightarrow> int \<Rightarrow> int" where
  "rne_div n d =
     (let q = n div d; r = n mod d
      in if 2 * r < d then q else if d < 2 * r then q + 1
         else if even q then q else q + 1)"

text \<open>
  The result of an operation whose exact value has sign \<open>sg\<close> and the positive magnitude
  \<open>n / d * 2^x\<close>: the magnitude is rounded to the nearest multiple of \<open>2^u\<close>, ties to even,
  where \<open>u\<close> is the exponent of the last of 53 mantissa bits and never below \<open>-1074\<close>; a
  rounded magnitude of \<open>2^1024\<close> or more overflows to infinity.
\<close>

definition round_frac :: "bool \<Rightarrow> int \<Rightarrow> int \<Rightarrow> int \<Rightarrow> double" where
  "round_frac sg n d x =
     (let u = max (frac_expo n d + x - 52) (- 1074);
          m = rne_div (n * pow2 (x - u)) (d * pow2 (u - x))
      in if 971 < u then Inf sg
         else if m = pow2 53 then (if u = 971 then Inf sg else Fin sg (pow2 52) (u + 1))
         else Fin sg m u)"

text \<open>A numeric literal denotes the binary64 value nearest to its decimal value.\<close>

definition lit :: "rat \<Rightarrow> double" where
  "lit q = (if q = 0 then Fin False 0 (- 1074)
            else round_frac (q < 0) (fst (quotient_of \<bar>q\<bar>)) (snd (quotient_of \<bar>q\<bar>)) 0)"

text \<open>\<^verbatim>\<open>Math.PI\<close> is \<open>0x1.921fb54442d18p+1\<close>.\<close>

definition Math_PI :: double where
  "Math_PI = Fin False 7074237752028440 (- 51)"

fun isNaN :: "double \<Rightarrow> bool" where
  "isNaN NaN = True"
| "isNaN _ = False"

fun num_neg :: "double \<Rightarrow> double" where
  "num_neg NaN = NaN"
| "num_neg (Inf sg) = Inf (\<not> sg)"
| "num_neg (Fin sg m e) = Fin (\<not> sg) m e"

text \<open>
  Two finite numbers are added and compared as integers, after their signed mantissas
  are shifted to a common exponent: the smaller exponent, or the exponent of the other
  number when one of them is zero.
\<close>

definition common_exp :: "int \<Rightarrow> int \<Rightarrow> int \<Rightarrow> int \<Rightarrow> int" where
  "common_exp m1 e1 m2 e2 = (if m1 = 0 then e2 else if m2 = 0 then e1 else min e1 e2)"

definition aligned :: "bool \<Rightarrow> int \<Rightarrow> int \<Rightarrow> int \<Rightarrow> int" where
  "aligned sg m e e0 = (if sg then - m else m) * pow2 (e - e0)"

fun num_add :: "double \<Rightarrow> double \<Rightarrow> double" where
  "num_add NaN _ = NaN"
| "num_add _ NaN = NaN"
| "num_add (Inf a) (Inf b) = (if a = b then Inf a else NaN)"
| "num_add (Inf a) (Fin _ _ _) = Inf a"
| "num_add (Fin _ _ _) (Inf b) = Inf b"
| "num_add (Fin a m1 e1) (Fin b m2 e2) =
     (let e0 = common_exp m1 e1 m2 e2; n = aligned a m1 e1 e0 + aligned b m2 e2 e0
      in if n = 0 then Fin (a \<and> b) 0 (- 1074) else round_frac (n < 0) \<bar>n\<bar> 1 e0)"

definition num_sub :: "double \<Rightarrow> double \<Rightarrow> double" where
  "num_sub x y = num_add x (num_neg y)"

fun num_mul :: "double \<Rightarrow> double \<Rightarrow> double" where
  "num_mul NaN _ = NaN"
| "num_mul _ NaN = NaN"
| "num_mul (Inf a) (Inf b) = Inf (a \<noteq> b)"
| "num_mul (Inf a) (Fin b m e) = (if m = 0 then NaN else Inf (a \<noteq> b))"
| "num_mul (Fin a m e) (Inf b) = (if m = 0 then NaN else Inf (a \<noteq> b))"
| "num_mul (Fin a m1 e1) (Fin b m2 e2) =
     (if m1 = 0 \<or> m2 = 0 then Fin (a \<noteq> b) 0 (- 1074)
      else round_frac (a \<noteq> b) (m1 * m2) 1 (e1 + e2))"

fun num_div :: "double \<Rightarrow> double \<Rightarrow> double" where
  "num_div NaN _ = NaN"
| "num_div _ NaN = NaN"
| "num_div (Inf a) (Inf b) = NaN"
| "num_div (Inf a) (Fin b m e) = Inf (a \<noteq> b)"
| "num_div (Fin a m e) (Inf b) = Fin (a \<noteq> b) 0 (- 1074)"
| "num_div (Fin a m1 e1) (Fin b m2 e2) =
     (if m2 = 0 then (if m1 = 0 then NaN else Inf (a \<noteq> b))
      else if m1 = 0 then Fin (a \<noteq> b) 0 (- 1074)
      else round_frac (a \<noteq> b) m1 m2 (e1 - e2))"

text \<open>\<^verbatim>\<open>x ** 2\<close>, taken as the correctly rounded square.\<close>

definition pow_2 :: "double \<Rightarrow> double" where
  "pow_2 x = num_mul x x"

text \<open>The integer square root, two bits at a time.\<close>

function isqrt :: "int \<Rightarrow> int" where
  "isqrt n = (if n < 2 then n
              else let r = 2 * isqrt (n div 4)
                   in if (r + 1) * (r + 1) \<le> n then r + 1 else r)"
  by pat_completeness auto
termination
  by (relation "measure nat") auto

declare isqrt.simps [simp del]

text \<open>
  The correctly rounded square root: the mantissa is scaled by a power of two to an
  integer of more than 128 bits with an even exponent left over; its integer square root
  has more bits than a mantissa, and a remainder only has to be known to exist (a last
  sticky bit), since a square root of a binary64 value is never a rounding tie.
\<close>

fun Math_sqrt :: "double \<Rightarrow> double" where
  "Math_sqrt NaN = NaN"
| "Math_sqrt (Inf sg) = (if sg then NaN else Inf False)"
| "Math_sqrt (Fin sg m e) =
     (if m = 0 then Fin sg m e
      else if sg then NaN
      else let t = (if even e then 128 else 129);
               n = m * pow2 t;
               r = isqrt n
           in round_frac False (2 * r + (if r * r = n then 0 else 1)) 2 ((e - t) div 2))"

fun Math_abs :: "double \<Rightarrow> double" where
  "Math_abs NaN = NaN"
| "Math_abs (Inf sg) = Inf False"
| "Math_abs (Fin sg m e) = Fin False m e"

text \<open>The relational operators; a comparison with NaN is false, and \<open>-0\<close> equals \<open>+0\<close>.\<close>

fun num_lt :: "double \<Rightarrow> double \<Rightarrow> bool" where
  "num_lt NaN _ = False"
| "num_lt _ NaN = False"
| "num_lt (Inf a) (Inf b) = (a \<and> \<not> b)"
| "num_lt (Inf a) (Fin _ _ _) = a"
| "num_lt (Fin _ _ _) (Inf b) = (\<not> b)"
| "num_lt (Fin a m1 e1) (Fin b m2 e2) =
     (aligned a m1 e1 (common_exp m1 e1 m2 e2)
        < aligned b m2 e2 (common_exp m1 e1 m2 e2))"

fun num_le :: "double \<Rightarrow> double \<Rightarrow> bool" where
  "num_le NaN _ = False"
| "num_le _ NaN = False"
| "num_le (Inf a) (Inf b) = (a \<or> \<not> b)"
| "num_le (Inf a) (Fin _ _ _) = a"
| "num_le (Fin _ _ _) (Inf b) = (\<not> b)"
| "num_le (Fin a m1 e1) (Fin b m2 e2) =
     (aligned a m1 e1 (common_exp m1 e1 m2 e2)
        \<le> aligned b m2 e2 (common_exp m1 e1 m2 e2))"

definition num_ge :: "double \<Rightarrow> double \<Rightarrow> bool" where
  "num_ge x y = num_le y x"

fun strict_eq :: "double \<Rightarrow> double \<Rightarrow> bool" where
  "strict_eq (Inf a) (Inf b) = (a = b)"
| "strict_eq (Fin a m1 e1) (Fin b m2 e2) =
     (aligned a m1 e1 (common_exp m1 e1 m2 e2)
        = aligned b m2 e2 (common_exp m1 e1 m2 e2))"
| "strict_eq _ _ = False"

text \<open>
  \<^verbatim>\<open>Math.max\<close> and \<^verbatim>\<open>Math.min\<close> scan their arguments from \<open>-\<infinity>\<close> and \<open>+\<infinity>\<close>; a NaN
  argument makes the result NaN, and \<open>+0\<close> counts as larger than \<open>-0\<close>.
\<close>

fun max_scan :: "double \<Rightarrow> double list \<Rightarrow> double" where
  "max_scan highest [] = highest"
| "max_scan highest (x # xs) =
     (if isNaN x then NaN
      else if x = Fin False 0 (- 1074) \<and> highest = Fin True 0 (- 1074) then max_scan (Fin False 0 (- 1074)) xs
      else if num_lt highest x then max_scan x xs
      else max_scan highest xs)"

definition Math_max :: "double list \<Rightarrow> double" where
  "Math_max xs = max_scan (Inf True) xs"

fun min_scan :: "double \<Rightarrow> double list \<Rightarrow> double" where
  "min_scan lowest [] = lowest"
| "min_scan lowest (x # xs) =
     (if isNaN x then NaN
      else if x = Fin True 0 (- 1074) \<and> lowest = Fin False 0 (- 1074) then min_scan (Fin True 0 (- 1074)) xs
      else if num_lt x lowest then min_scan x xs
      else min_scan lowest xs)"

definition Math_min :: "double list \<Rightarrow> double" where
  "Math_min xs = min_scan (Inf False) xs"

subsection \<open>Strings and \<^verbatim>\<open>toFixed\<close>\<close>

text \<open>
  A JavaScript string is kept as a list of pieces: ASCII text, a single code unit beyond
  ASCII, or the default string of a number. \<^verbatim>\<open>toFixed\<close> falls back on that default
  string for magnitudes of \<open>10^21\<close> and more; its digits are not spelled out here.
\<close>

datatype piece = Lit string | Unit nat | NumberToString double

type_synonym jstring = "piece list"

definition digit_char :: "int \<Rightarrow> char" where
  "digit_char d = ''0123456789'' ! nat d"

function digits :: "int \<Rightarrow> string" where
  "digits n = (if n < 10 then [digit_char n] else digits (n div 10) @ [digit_char (n mod 10)])"
  by pat_completeness auto
termination
  by (relation "measure nat") auto

declare digits.simps [simp del]

definition toFixed :: "double \<Rightarrow> nat \<Rightarrow> jstring" where
  "toFixed x fd =
     (case x of
        NaN \<Rightarrow> [Lit ''NaN'']
      | Inf sg \<Rightarrow> [Lit (if sg then ''-Infinity'' else ''Infinity'')]
      | Fin sg m e \<Rightarrow>
          if 10 ^ 21 * pow2 (- e) \<le> m * pow2 e then [NumberToString x]
          else
            let n = (2 * m * 10 ^ fd * pow2 e + pow2 (- e)) div (2 * pow2 (- e));
                ds = digits n;
                ds = replicate (fd + 1 - length ds) (CHR ''0'') @ ds;
                k = length ds
            in [Lit ((if sg \<and> m \<noteq> 0 then ''-'' else [])
                     @ (if fd = 0 then ds else take (k - fd) ds @ ''.'' @ drop (k - fd) ds))])"

section \<open>Rounding, as a value\<close>

text \<open>
  The lemmas below read \<open>round_frac\<close> through the exact magnitude \<open>n / d * 2^x\<close>, the
  exponent of the last mantissa bit the result gets, and its mantissa there; \<open>rounded\<close> is
  the magnitude of the finite result.
\<close>

definition ulp_exp :: "int \<Rightarrow> int \<Rightarrow> int \<Rightarrow> int" where
  "ulp_exp n d x = max (frac_expo n d + x - 52) (- 1074)"

definition mantissa :: "int \<Rightarrow> int \<Rightarrow> int \<Rightarrow> int" where
  "mantissa n d x =
     rne_div (n * pow2 (x - ulp_exp n d x)) (d * pow2 (ulp_exp n d x - x))"

definition exact :: "int \<Rightarrow> int \<Rightarrow> int \<Rightarrow> rat" where
  "exact n d x = of_int n / of_int d * 2 powi x"

definition rounded :: "int \<Rightarrow> int \<Rightarrow> int \<Rightarrow> rat" where
  "rounded n d x = of_int (mantissa n d x) * 2 powi (ulp_exp n d x)"

text \<open>A running maximum \<open>h\<close> that a later argument \<open>y\<close> of \<^verbatim>\<open>Math.max\<close> replaces or equals.\<close>

definition below :: "double \<Rightarrow> double \<Rightarrow> bool" where
  "below h y \<longleftrightarrow> is_double h \<and> \<not> isNaN h \<and> (num_lt h y \<or> h = y)"

section \<open>Fixed decimals as the specification words them\<close>







section \<open>The page\<close>

text \<open>
  The four form fields, as \<^verbatim>\<open>parseFloat\<close> returns them (any number, NaN for text that
  does not start with one).
\<close>

record inputs =
  lambda_nm :: double
  f_mm :: double
  s_mm :: double
  w0_mm :: double

text \<open>The values of lines 26 to 31, in meters.\<close>

record BeamInput =
  lambda_m :: double
  f_m :: double
  s_m :: double
  w0_m :: double

text \<open>The values of lines 39 to 57.\<close>

record BeamResult =
  zr :: double
  w0_prime :: double
  alpha :: double
  s_prime :: double
  theta_in :: double
  theta_prime :: double
  zr_prime :: double

text \<open>What the 2D context is told to do, in order.\<close>

datatype cmd =
    ClearRect double double double double
  | BeginPath
  | MoveTo double double
  | LineTo double double
  | ClosePath
  | Stroke
  | Fill
  | StrokeStyle string
  | FillStyle string
  | LineWidth double
  | Font string
  | TextAlign string
  | FillText jstring double double

text \<open>
  The six output elements' \<^verbatim>\<open>textContent\<close>, the canvas with its fixed size, and the
  commands its context has received so far.
\<close>

record page =
  out_s_prime :: jstring
  out_w0_prime :: jstring
  out_zr_in :: jstring
  out_zr_prime :: jstring
  out_theta_in :: jstring
  out_theta_prime :: jstring
  canvas_width :: nat
  canvas_height :: nat
  ctx :: "cmd list"

section \<open>\<^verbatim>\<open>updateVisualization\<close>: reading, checking, calculating\<close>

definition to_SI :: "inputs \<Rightarrow> BeamInput" where
  "to_SI ins =
     \<lparr> lambda_m = num_mul (lambda_nm ins) (lit (1 / 10 ^ 9)),
       f_m = num_mul (f_mm ins) (lit (1 / 10 ^ 3)),
       s_m = num_mul (num_neg (s_mm ins)) (lit (1 / 10 ^ 3)),
       w0_m = num_mul (w0_mm ins) (lit (1 / 10 ^ 3)) \<rparr>"

text \<open>The two early returns of lines 33 and 34.\<close>

definition rejected :: "BeamInput \<Rightarrow> bool" where
  "rejected i =
     (if list_ex isNaN [lambda_m i, f_m i, s_m i, w0_m i] then True
      else num_le (w0_m i) (lit 0) \<or> num_le (lambda_m i) (lit 0) \<or> num_le (f_m i) (lit 0))"

definition calculate :: "BeamInput \<Rightarrow> BeamResult option" where
  "calculate i =
     (if rejected i then None
      else
        let zr = num_div (num_mul Math_PI (pow_2 (w0_m i))) (lambda_m i);
            w0_prime = num_div (num_mul (w0_m i) (f_m i))
                         (Math_sqrt (num_add (pow_2 (num_add (s_m i) (f_m i))) (pow_2 zr)));
            alpha = num_div w0_prime (w0_m i);
            s_prime = num_add (f_m i)
                        (num_mul (pow_2 alpha) (num_sub (num_neg (s_m i)) (f_m i)));
            theta_in = num_div (lambda_m i) (num_mul Math_PI (w0_m i));
            theta_prime = num_div theta_in alpha;
            zr_prime = num_mul (pow_2 alpha) zr
        in Some \<lparr> zr = zr, w0_prime = w0_prime, alpha = alpha, s_prime = s_prime,
                  theta_in = theta_in, theta_prime = theta_prime, zr_prime = zr_prime \<rparr>)"

text \<open>Lines 60 to 65.\<close>

definition show_results :: "BeamResult \<Rightarrow> page \<Rightarrow> page" where
  "show_results r pg =
     pg \<lparr> out_s_prime := toFixed (num_mul (s_prime r) (lit 1000)) 2,
          out_w0_prime := toFixed (num_mul (w0_prime r) (lit 1000)) 3,
          out_zr_in := toFixed (num_mul (zr r) (lit 1000)) 2,
          out_zr_prime := toFixed (num_mul (zr_prime r) (lit 1000)) 2,
          out_theta_in := toFixed (num_mul (theta_in r) (lit 1000)) 3,
          out_theta_prime := toFixed (num_mul (theta_prime r) (lit 1000)) 3 \<rparr>"

section \<open>\<^verbatim>\<open>drawCanvas\<close>\<close>

text \<open>The constants of lines 89 to 106, which the drawing below and \<^verbatim>\<open>drawBeam\<close> use.\<close>

record scene =
  canvasWidth :: double
  canvasHeight :: double
  opticalAxisY :: double
  totalDist :: double
  scaleX :: double
  maxHeight :: double
  scaleY :: double
  lensX :: double

definition the_scene :: "nat \<Rightarrow> nat \<Rightarrow> BeamInput \<Rightarrow> BeamResult \<Rightarrow> scene" where
  "the_scene w h i r =
     (let canvasWidth = lit (of_nat w);
          canvasHeight = lit (of_nat h);
          opticalAxisY = num_div canvasHeight (lit 2);
          totalDist =
            num_mul
              (Math_max [num_neg (s_m i), s_prime r, f_m i,
                         Math_abs (num_add (s_m i) (f_m i)),
                         Math_abs (num_sub (s_prime r) (f_m i))])
              (lit (22 / 10));
          scaleX = num_div canvasWidth totalDist;
          beamWidthAtStart =
            num_mul (w0_m i)
              (Math_sqrt (num_add (lit 1)
                 (pow_2 (num_div
                    (num_sub (num_div (num_neg totalDist) (lit 2)) (s_m i)) (zr r)))));
          beamWidthAtEnd =
            num_mul (w0_prime r)
              (Math_sqrt (num_add (lit 1)
                 (pow_2 (num_div
                    (num_sub (num_div totalDist (lit 2)) (s_prime r)) (zr_prime r)))));
          maxHeight = Math_max [beamWidthAtStart, beamWidthAtEnd];
          scaleY = num_div canvasHeight (num_mul maxHeight (lit (5 / 2)));
          lensX = num_div canvasWidth (lit 2)
      in \<lparr> canvasWidth = canvasWidth, canvasHeight = canvasHeight,
           opticalAxisY = opticalAxisY, totalDist = totalDist, scaleX = scaleX,
           maxHeight = maxHeight, scaleY = scaleY, lensX = lensX \<rparr>)"

text \<open>Lines 86 to 133: the cleared canvas, the optical axis and the lens.\<close>

definition draw_axis_and_lens :: "scene \<Rightarrow> cmd list" where
  "draw_axis_and_lens sc =
     (let lensHeight =
            Math_min [num_mul (num_mul (maxHeight sc) (scaleY sc)) (lit (3 / 2)),
                      num_div (canvasHeight sc) (lit (22 / 10))];
          up = num_sub (opticalAxisY sc) lensHeight;
          down = num_add (opticalAxisY sc) lensHeight
      in [ClearRect (lit 0) (lit 0) (canvasWidth sc) (canvasHeight sc),
          BeginPath, MoveTo (lit 0) (opticalAxisY sc),
          LineTo (canvasWidth sc) (opticalAxisY sc),
          StrokeStyle ''black'', Stroke,
          BeginPath, MoveTo (lensX sc) up, LineTo (lensX sc) down,
          StrokeStyle ''#4A90E2'', LineWidth (lit 2), Stroke,
          MoveTo (lensX sc) up,
          LineTo (num_add (lensX sc) (lit 5)) (num_add up (lit 10)),
          MoveTo (lensX sc) up,
          LineTo (num_sub (lensX sc) (lit 5)) (num_add up (lit 10)),
          MoveTo (lensX sc) down,
          LineTo (num_add (lensX sc) (lit 5)) (num_sub down (lit 10)),
          MoveTo (lensX sc) down,
          LineTo (num_sub (lensX sc) (lit 5)) (num_sub down (lit 10)),
          Stroke, LineWidth (lit 1)])"

text \<open>
  The two loops of \<^verbatim>\<open>drawBeam\<close>. Each appends one path command per sampled \<open>z\<close>; a loop
  whose \<open>z\<close> never passes its bound does not return.
\<close>

partial_function (option) top_envelope ::
  "scene \<Rightarrow> double \<Rightarrow> double \<Rightarrow> double \<Rightarrow> double \<Rightarrow> double \<Rightarrow> double \<Rightarrow> cmd list
     \<Rightarrow> cmd list option" where
  "top_envelope sc waistPos waistRadius rayleighRange startZ endZ z path =
     (if num_le z endZ then
        top_envelope sc waistPos waistRadius rayleighRange startZ endZ
          (num_add z (num_div (lit 1) (scaleX sc)))
          (path @
            [(if strict_eq z startZ then MoveTo else LineTo)
               (num_add (lensX sc) (num_mul z (scaleX sc)))
               (num_sub (opticalAxisY sc)
                  (num_mul
                     (num_mul waistRadius
                        (Math_sqrt (num_add (lit 1)
                           (pow_2 (num_div (num_sub z waistPos) rayleighRange)))))
                     (scaleY sc)))])
      else Some path)"

partial_function (option) bottom_envelope ::
  "scene \<Rightarrow> double \<Rightarrow> double \<Rightarrow> double \<Rightarrow> double \<Rightarrow> double \<Rightarrow> double \<Rightarrow> cmd list
     \<Rightarrow> cmd list option" where
  "bottom_envelope sc waistPos waistRadius rayleighRange startZ endZ z path =
     (if num_ge z startZ then
        bottom_envelope sc waistPos waistRadius rayleighRange startZ endZ
          (num_sub z (num_div (lit 1) (scaleX sc)))
          (path @
            [LineTo
               (num_add (lensX sc) (num_mul z (scaleX sc)))
               (num_add (opticalAxisY sc)
                  (num_mul
                     (num_mul waistRadius
                        (Math_sqrt (num_add (lit 1)
                           (pow_2 (num_div (num_sub z waistPos) rayleighRange)))))
                     (scaleY sc)))])
      else Some path)"

declare top_envelope.simps [code] bottom_envelope.simps [code]

definition drawBeam ::
  "scene \<Rightarrow> double \<Rightarrow> double \<Rightarrow> double \<Rightarrow> double \<Rightarrow> double \<Rightarrow> cmd list option" where
  "drawBeam sc waistPos waistRadius rayleighRange startZ endZ =
     (case top_envelope sc waistPos waistRadius rayleighRange startZ endZ startZ [BeginPath] of
        None \<Rightarrow> None
      | Some upper \<Rightarrow>
          (case bottom_envelope sc waistPos waistRadius rayleighRange startZ endZ endZ upper of
             None \<Rightarrow> None
           | Some outline \<Rightarrow>
               Some (outline @ [ClosePath, FillStyle ''rgba(255, 100, 100, 0.3)'', Fill])))"

definition drawAnnotationLine ::
  "double \<Rightarrow> double \<Rightarrow> double \<Rightarrow> double \<Rightarrow> jstring \<Rightarrow> cmd list" where
  "drawAnnotationLine x1 y1 x2 y2 label =
     [BeginPath, MoveTo x1 y1, LineTo x2 y2, StrokeStyle ''#333'', Stroke,
      MoveTo x1 (num_sub y1 (lit 5)), LineTo x1 (num_add y1 (lit 5)),
      MoveTo x2 (num_sub y2 (lit 5)), LineTo x2 (num_add y2 (lit 5)),
      StrokeStyle ''#555'', Stroke,
      FillText label (num_div (num_add x1 x2) (lit 2)) (num_sub y1 (lit 8))]"

text \<open>Lines 167 to 272: the annotations.\<close>

definition draw_annotations :: "scene \<Rightarrow> BeamInput \<Rightarrow> BeamResult \<Rightarrow> cmd list" where
  "draw_annotations sc i r =
     (let mm = (\<lambda>x fd. toFixed (num_mul x (lit 1000)) fd);
          f_y_offset = num_sub (opticalAxisY sc) (lit 50);
          w0_x = num_add (lensX sc) (num_mul (s_m i) (scaleX sc));
          w0_y = opticalAxisY sc;
          w0_prime_x = num_add (lensX sc) (num_mul (s_prime r) (scaleX sc));
          w0_prime_y = opticalAxisY sc;
          textY = lit 30
      in [Font ''12px Arial'', FillStyle ''black'', TextAlign ''center'']
         @ drawAnnotationLine
             (num_add (lensX sc) (num_mul (s_m i) (scaleX sc)))
             (num_add (opticalAxisY sc) (lit 40))
             (lensX sc)
             (num_add (opticalAxisY sc) (lit 40))
             ([Lit ''s = ''] @ mm (num_neg (s_m i)) 1 @ [Lit '' mm''])
         @ drawAnnotationLine
             (lensX sc)
             (num_add (opticalAxisY sc) (lit 60))
             (num_add (lensX sc) (num_mul (s_prime r) (scaleX sc)))
             (num_add (opticalAxisY sc) (lit 60))
             ([Lit ''s' = ''] @ mm (s_prime r) 1 @ [Lit '' mm''])
         @ drawAnnotationLine
             (num_sub (lensX sc) (num_mul (f_m i) (scaleX sc)))
             f_y_offset
             (lensX sc)
             f_y_offset
             ([Lit ''f = ''] @ mm (f_m i) 1 @ [Lit '' mm''])
         @ drawAnnotationLine
             (lensX sc)
             (num_sub f_y_offset (lit 20))
             (num_add (lensX sc) (num_mul (f_m i) (scaleX sc)))
             (num_sub f_y_offset (lit 20))
             ([Lit ''f = ''] @ mm (f_m i) 1 @ [Lit '' mm''])
         @ [BeginPath,
            MoveTo w0_x (num_sub w0_y (num_mul (w0_m i) (scaleY sc))),
            LineTo w0_x (num_add w0_y (num_mul (w0_m i) (scaleY sc))),
            StrokeStyle ''red'', Stroke,
            TextAlign ''left'',
            FillText ([Lit ''w'', Unit 0x2080, Lit '' = ''] @ mm (w0_m i) 3 @ [Lit '' mm''])
              (num_add w0_x (lit 8)) (num_sub w0_y (lit 5)),
            BeginPath,
            MoveTo w0_prime_x (num_sub w0_prime_y (num_mul (w0_prime r) (scaleY sc))),
            LineTo w0_prime_x (num_add w0_prime_y (num_mul (w0_prime r) (scaleY sc))),
            StrokeStyle ''blue'', Stroke,
            FillText ([Lit ''w'', Unit 0x2080, Lit ''' = ''] @ mm (w0_prime r) 3 @ [Lit '' mm''])
              (num_add w0_prime_x (lit 8)) (num_sub w0_prime_y (lit 5)),
            TextAlign ''center'',
            FillText ([Lit ''z'', Unit 0x280, Lit '' = ''] @ mm (zr r) 2 @ [Lit '' mm''])
              (num_div (lensX sc) (lit 2)) textY,
            FillText ([Unit 0x3B8, Lit '' = ''] @ mm (theta_in r) 3 @ [Lit '' mrad''])
              (num_div (lensX sc) (lit 2)) (num_add textY (lit 18)),
            FillText ([Lit ''z'', Unit 0x280, Lit ''' = ''] @ mm (zr_prime r) 2 @ [Lit '' mm''])
              (num_add (lensX sc) (num_div (lensX sc) (lit 2))) textY,
            FillText ([Unit 0x3B8, Lit ''' = ''] @ mm (theta_prime r) 3 @ [Lit '' mrad''])
              (num_add (lensX sc) (num_div (lensX sc) (lit 2))) (num_add textY (lit 18))])"

definition drawCanvas :: "nat \<Rightarrow> nat \<Rightarrow> BeamInput \<Rightarrow> BeamResult \<Rightarrow> cmd list option" where
  "drawCanvas w h i r =
     (let sc = the_scene w h i r
      in case drawBeam sc (s_m i) (w0_m i) (zr r)
                (num_div (num_neg (totalDist sc)) (lit 2)) (lit 0) of
           None \<Rightarrow> None
         | Some input_beam \<Rightarrow>
             (case drawBeam sc (s_prime r) (w0_prime r) (zr_prime r)
                     (lit 0) (num_div (totalDist sc) (lit 2)) of
                None \<Rightarrow> None
              | Some output_beam \<Rightarrow>
                  Some (draw_axis_and_lens sc @ input_beam @ output_beam
                        @ draw_annotations sc i r)))"

section \<open>\<^verbatim>\<open>updateVisualization\<close>: one update cycle\<close>

definition updateVisualization :: "inputs \<Rightarrow> page \<Rightarrow> page option" where
  "updateVisualization ins pg =
     (case calculate (to_SI ins) of
        None \<Rightarrow> Some pg
      | Some r \<Rightarrow>
          (case drawCanvas (canvas_width pg) (canvas_height pg) (to_SI ins) r of
             None \<Rightarrow> None
           | Some cmds \<Rightarrow> Some ((show_results r pg) \<lparr> ctx := ctx pg @ cmds \<rparr>)))"

section \<open>The calculator as the specification words it\<close>

text \<open>
  A valid input has no NaN component, and a strictly positive wavelength, focal length
  and waist.
\<close>

definition valid_input :: "BeamInput \<Rightarrow> bool" where
  "valid_input i =
     (\<not> isNaN (lambda_m i) \<and> \<not> isNaN (f_m i) \<and> \<not> isNaN (s_m i) \<and> \<not> isNaN (w0_m i)
      \<and> num_lt (lit 0) (lambda_m i) \<and> num_lt (lit 0) (f_m i) \<and> num_lt (lit 0) (w0_m i))"

text \<open>The seven formulas, each in terms of the ones before it.\<close>

definition spec_zR :: "BeamInput \<Rightarrow> double" where
  "spec_zR i = num_div (num_mul Math_PI (pow_2 (w0_m i))) (lambda_m i)"

definition spec_w0' :: "BeamInput \<Rightarrow> double" where
  "spec_w0' i =
     num_div (num_mul (w0_m i) (f_m i))
       (Math_sqrt (num_add (pow_2 (num_add (s_m i) (f_m i))) (pow_2 (spec_zR i))))"

definition spec_alpha :: "BeamInput \<Rightarrow> double" where
  "spec_alpha i = num_div (spec_w0' i) (w0_m i)"

definition spec_s' :: "BeamInput \<Rightarrow> double" where
  "spec_s' i =
     num_add (f_m i) (num_mul (pow_2 (spec_alpha i)) (num_sub (num_neg (s_m i)) (f_m i)))"

definition spec_theta :: "BeamInput \<Rightarrow> double" where
  "spec_theta i = num_div (lambda_m i) (num_mul Math_PI (w0_m i))"

definition spec_theta' :: "BeamInput \<Rightarrow> double" where
  "spec_theta' i = num_div (spec_theta i) (spec_alpha i)"

definition spec_zR' :: "BeamInput \<Rightarrow> double" where
  "spec_zR' i = num_mul (pow_2 (spec_alpha i)) (spec_zR i)"

section \<open>The beam envelope as the specification words it\<close>

text \<open>The beam radius law \<open>w(z) = waistRadius * sqrt (1 + ((z - waistPos) / rayleighRange)^2)\<close>.\<close>

definition beam_radius :: "double \<Rightarrow> double \<Rightarrow> double \<Rightarrow> double \<Rightarrow> double" where
  "beam_radius waistPos waistRadius rayleighRange z =
     num_mul waistRadius
       (Math_sqrt (num_add (lit 1) (pow_2 (num_div (num_sub z waistPos) rayleighRange))))"

text \<open>
  The boundary points at a position \<open>z\<close>: both at \<open>x = lensX + z * scaleX\<close>, the top one
  \<open>w(z) * scaleY\<close> above the optical axis (a smaller \<open>y\<close>) and the bottom one as far below.
\<close>

definition top_point :: "scene \<Rightarrow> double \<Rightarrow> double \<Rightarrow> double \<Rightarrow> double \<Rightarrow> double \<times> double" where
  "top_point sc waistPos waistRadius rayleighRange z =
     (num_add (lensX sc) (num_mul z (scaleX sc)),
      num_sub (opticalAxisY sc)
        (num_mul (beam_radius waistPos waistRadius rayleighRange z) (scaleY sc)))"

definition bottom_point :: "scene \<Rightarrow> double \<Rightarrow> double \<Rightarrow> double \<Rightarrow> double \<Rightarrow> double \<times> double" where
  "bottom_point sc waistPos waistRadius rayleighRange z =
     (num_add (lensX sc) (num_mul z (scaleX sc)),
      num_add (opticalAxisY sc)
        (num_mul (beam_radius waistPos waistRadius rayleighRange z) (scaleY sc)))"

text \<open>The point a path command goes to.\<close>

fun target :: "cmd \<Rightarrow> (double \<times> double) option" where
  "target (MoveTo x y) = Some (x, y)"
| "target (LineTo x y) = Some (x, y)"
| "target _ = None"

text \<open>
  A run of path commands traces the top boundary over the positions \<open>zs\<close> when its k-th
  command goes to the top boundary point at the k-th position, and every position is at
  or before \<open>endZ\<close>; likewise for the bottom boundary, with every position at or after
  \<open>startZ\<close>.
\<close>

definition top_boundary ::
  "scene \<Rightarrow> double \<Rightarrow> double \<Rightarrow> double \<Rightarrow> double \<Rightarrow> double list \<Rightarrow> cmd list \<Rightarrow> bool" where
  "top_boundary sc waistPos waistRadius rayleighRange endZ zs cs =
     list_all2
       (\<lambda>z c. num_le z endZ
              \<and> target c = Some (top_point sc waistPos waistRadius rayleighRange z))
       zs cs"

definition bottom_boundary ::
  "scene \<Rightarrow> double \<Rightarrow> double \<Rightarrow> double \<Rightarrow> double \<Rightarrow> double list \<Rightarrow> cmd list \<Rightarrow> bool" where
  "bottom_boundary sc waistPos waistRadius rayleighRange startZ zs cs =
     list_all2
       (\<lambda>z c. num_ge z startZ
              \<and> target c = Some (bottom_point sc waistPos waistRadius rayleighRange z))
       zs cs"

text \<open>What \<^verbatim>\<open>drawBeam\<close> issues after the two boundaries.\<close>

definition closing :: "cmd list" where
  "closing = [ClosePath, FillStyle ''rgba(255, 100, 100, 0.3)'', Fill]"

text \<open>
  The fill styles in force at the \<^verbatim>\<open>fill()\<close> calls of a command sequence, in order, for a
  context whose fill style is \<open>cur\<close> at the start.
\<close>

fun fill_tints :: "string \<Rightarrow> cmd list \<Rightarrow> string list" where
  "fill_tints cur [] = []"
| "fill_tints cur (FillStyle c # cs) = fill_tints c cs"
| "fill_tints cur (Fill # cs) = cur # fill_tints cur cs"
| "fill_tints cur (_ # cs) = fill_tints cur cs"

section \<open>The envelope polygon as the specification words it\<close>

text \<open>
  The positions a loop visits: \<open>n\<close> of them from \<open>z\<close> on, each the one before plus the
  step for the top boundary, and minus the step for the bottom boundary.
\<close>

primrec samples_up :: "double \<Rightarrow> double \<Rightarrow> nat \<Rightarrow> double list" where
  "samples_up step z 0 = []"
| "samples_up step z (Suc n) = z # samples_up step (num_add z step) n"

primrec samples_down :: "double \<Rightarrow> double \<Rightarrow> nat \<Rightarrow> double list" where
  "samples_down step z 0 = []"
| "samples_down step z (Suc n) = z # samples_down step (num_sub z step) n"

text \<open>
  The top boundary visits exactly \<open>n\<close> positions from \<open>z\<close> when these are at or before
  \<open>endZ\<close> and the next one is not; likewise downwards to \<open>startZ\<close> for the bottom
  boundary.
\<close>

definition visits_up :: "double \<Rightarrow> double \<Rightarrow> double \<Rightarrow> nat \<Rightarrow> bool" where
  "visits_up step endZ z n \<longleftrightarrow>
     list_all (\<lambda>z. num_le z endZ) (samples_up step z n)
     \<and> \<not> num_le (((\<lambda>z. num_add z step) ^^ n) z) endZ"

definition visits_down :: "double \<Rightarrow> double \<Rightarrow> double \<Rightarrow> nat \<Rightarrow> bool" where
  "visits_down step startZ z n \<longleftrightarrow>
     list_all (\<lambda>z. num_ge z startZ) (samples_down step z n)
     \<and> \<not> num_ge (((\<lambda>z. num_sub z step) ^^ n) z) startZ"

text \<open>
  The path commands of a boundary: one per position, to the boundary point there; the
  top boundary starts the path with a \<^verbatim>\<open>moveTo\<close> at \<open>startZ\<close>.
\<close>

definition top_run ::
  "scene \<Rightarrow> double \<Rightarrow> double \<Rightarrow> double \<Rightarrow> double \<Rightarrow> double list \<Rightarrow> cmd list" where
  "top_run sc waistPos waistRadius rayleighRange startZ zs =
     map (\<lambda>z. (if strict_eq z startZ then MoveTo else LineTo)
                 (fst (top_point sc waistPos waistRadius rayleighRange z))
                 (snd (top_point sc waistPos waistRadius rayleighRange z))) zs"

definition bottom_run ::
  "scene \<Rightarrow> double \<Rightarrow> double \<Rightarrow> double \<Rightarrow> double list \<Rightarrow> cmd list" where
  "bottom_run sc waistPos waistRadius rayleighRange zs =
     map (\<lambda>z. LineTo (fst (bottom_point sc waistPos waistRadius rayleighRange z))
                      (snd (bottom_point sc waistPos waistRadius rayleighRange z))) zs"

text \<open>
  The polygon of one beam with \<open>n\<close> top and \<open>m\<close> bottom vertices: the top boundary from
  \<open>startZ\<close> upwards, the bottom boundary from \<open>endZ\<close> downwards, both in steps of
  \<open>1 / scaleX\<close>, then closed and filled.
\<close>

definition envelope ::
  "scene \<Rightarrow> double \<Rightarrow> double \<Rightarrow> double \<Rightarrow> double \<Rightarrow> double \<Rightarrow> nat \<Rightarrow> nat \<Rightarrow> cmd list" where
  "envelope sc waistPos waistRadius rayleighRange startZ endZ n m =
     BeginPath
     # top_run sc waistPos waistRadius rayleighRange startZ
         (samples_up (num_div (lit 1) (scaleX sc)) startZ n)
     @ bottom_run sc waistPos waistRadius rayleighRange
         (samples_down (num_div (lit 1) (scaleX sc)) endZ m)
     @ closing"

definition sampled :: "scene \<Rightarrow> double \<Rightarrow> double \<Rightarrow> nat \<Rightarrow> nat \<Rightarrow> bool" where
  "sampled sc startZ endZ n m \<longleftrightarrow>
     0 < n \<and> 0 < m
     \<and> visits_up (num_div (lit 1) (scaleX sc)) endZ startZ n
     \<and> visits_down (num_div (lit 1) (scaleX sc)) startZ endZ m"

text \<open>
  A steady step: \<open>1 / scaleX\<close> is a positive finite number, the two bounds are finite
  and in order, and neither exceeds \<open>2^52\<close> steps in magnitude, so that a step is never
  lost in the rounding of \<open>z + step\<close> or \<open>z - step\<close> between the bounds.
\<close>

definition steady :: "scene \<Rightarrow> double \<Rightarrow> double \<Rightarrow> bool" where
  "steady sc startZ endZ =
     (let step = num_div (lit 1) (scaleX sc)
      in is_double step \<and> is_finite step \<and> 0 < valof step
         \<and> is_double startZ \<and> is_finite startZ \<and> is_double endZ \<and> is_finite endZ
         \<and> num_le startZ endZ
         \<and> \<bar>valof startZ\<bar> \<le> valof step * 2 ^ 52 \<and> \<bar>valof endZ\<bar> \<le> valof step * 2 ^ 52)"

section \<open>A concrete scenario\<close>

text \<open>
  The fields hold 632.8 (nm), 100, 150 and 0.5 (mm); the page starts with empty outputs
  and an untouched canvas.
\<close>

definition scenario :: inputs where
  "scenario = \<lparr> lambda_nm = lit (6328 / 10), f_mm = lit 100, s_mm = lit 150,
                 w0_mm = lit (1 / 2) \<rparr>"

text \<open>The same fields with \<^verbatim>\<open>Infinity\<close> as object distance.\<close>

definition infinite_distance :: inputs where
  "infinite_distance = scenario \<lparr> s_mm := Inf False \<rparr>"

definition blank_page :: "nat \<Rightarrow> nat \<Rightarrow> page" where
  "blank_page w h =
     \<lparr> out_s_prime = [], out_w0_prime = [], out_zr_in = [], out_zr_prime = [],
       out_theta_in = [], out_theta_prime = [],
       canvas_width = w, canvas_height = h, ctx = [] \<rparr>"


text \<open>The scene of the scenario on a canvas of 4 by 3 and on one of 8 by 6 pixels.\<close>

definition small_scene :: scene where
  "small_scene = the_scene 4 3 (to_SI scenario) (the (calculate (to_SI scenario)))"

definition wide_scene :: scene where
  "wide_scene = the_scene 8 6 (to_SI scenario) (the (calculate (to_SI scenario)))"

text \<open>The scenario with the object distance field at \<open>-150\<close>, a virtual object.\<close>

definition virtual_object :: inputs where
  "virtual_object = scenario \<lparr> s_mm := lit (- 150) \<rparr>"

section \<open>Facts about the numbers\<close>

lemma pow2_eq: "pow2 k = 2 ^ nat k"
proof (induction k rule: pow2.induct)
  case (1 k)
  show ?case
  proof (cases "k \<le> 0")
    case True
    then show ?thesis by (simp add: pow2.simps)
  next
    case False
    then have ih: "pow2 (k div 2) = 2 ^ nat (k div 2)"
      using 1 by simp
    have split: "nat k = nat (k div 2) + nat (k div 2) + (if even k then 0 else 1)"
      using False by (auto elim!: evenE oddE)
    have "pow2 k = (if even k then 1 else 2) * (2 ^ nat (k div 2) * 2 ^ nat (k div 2))"
      using False by (subst pow2.simps) (simp add: ih Let_def)
    also have "\<dots> = 2 ^ nat k"
      by (subst split) (simp add: power_add)
    finally show ?thesis .
  qed
qed

lemma pow2_pos [simp]: "0 < pow2 k"
  by (simp add: pow2_eq)

lemma lit_0 [simp]: "lit 0 = Fin False 0 (- 1074)"
  by (simp add: lit_def)

lemma lit_1e9: "lit (1 / 10 ^ 9) = Fin False 4835703278458517 (- 82)"
  by code_simp

lemma lit_1e3: "lit (1 / 10 ^ 3) = Fin False 4611686018427388 (- 62)"
  by code_simp

lemma num_le_Fin:
  "num_le (Fin a m1 e1) (Fin b m2 e2) \<longleftrightarrow>
     aligned a m1 e1 (common_exp m1 e1 m2 e2) \<le> aligned b m2 e2 (common_exp m1 e1 m2 e2)"
  by simp

lemma num_lt_Fin:
  "num_lt (Fin a m1 e1) (Fin b m2 e2) \<longleftrightarrow>
     aligned a m1 e1 (common_exp m1 e1 m2 e2) < aligned b m2 e2 (common_exp m1 e1 m2 e2)"
  by simp

lemma num_mul_Fin:
  "num_mul (Fin a m1 e1) (Fin b m2 e2) =
     (if m1 = 0 \<or> m2 = 0 then Fin (a \<noteq> b) 0 (- 1074)
      else round_frac (a \<noteq> b) (m1 * m2) 1 (e1 + e2))"
  by simp

declare num_le_Fin [simp del] num_lt_Fin [simp del] num_mul_Fin [simp del]

lemma num_le_zero_Fin [simp]:
  "num_le (Fin a m e) (Fin False 0 (- 1074)) \<longleftrightarrow> (if a then 0 \<le> m else m \<le> 0)"
  by (simp add: num_le_Fin common_exp_def aligned_def pow2_eq)

lemma num_lt_zero_Fin [simp]:
  "num_lt (Fin False 0 (- 1074)) (Fin a m e) \<longleftrightarrow> (if a then m < 0 else 0 < m)"
  by (simp add: num_lt_Fin common_exp_def aligned_def pow2_eq)

lemma not_le_zero_iff: "\<not> isNaN x \<Longrightarrow> \<not> num_le x (lit 0) \<longleftrightarrow> num_lt (lit 0) x"
  by (cases x) auto

lemma rne_div_nonneg: "0 \<le> n \<Longrightarrow> 0 < d \<Longrightarrow> 0 \<le> rne_div n d"
  by (simp add: rne_div_def Let_def pos_imp_zdiv_nonneg_iff)

lemma round_frac_cases:
  "round_frac sg n d x = Inf sg \<or>
   (\<exists>u. round_frac sg n d x = Fin sg (rne_div (n * pow2 (x - u)) (d * pow2 (u - x))) u) \<or>
   (\<exists>u. round_frac sg n d x = Fin sg (2 ^ 52) u)"
  by (auto simp: round_frac_def Let_def pow2_eq)

lemma round_frac_sign:
  assumes "0 \<le> n" "0 < d"
  shows "round_frac sg n d x = Inf sg \<or> (\<exists>m e. round_frac sg n d x = Fin sg m e \<and> 0 \<le> m)"
proof -
  have "0 \<le> rne_div (n * pow2 (x - u)) (d * pow2 (u - x))" for u
    using assms by (intro rne_div_nonneg) (simp_all add: pow2_eq)
  then show ?thesis
    using round_frac_cases [of sg n d x] by auto
qed

text \<open>Scaling by a positive constant keeps a value at or below zero there.\<close>

lemma scale_le_zero:
  assumes x: "is_double x" and le: "num_le x (lit 0)" and c: "0 < mc"
  shows "num_le (num_mul x (Fin False mc ec)) (lit 0)"
proof (cases x)
  case NaN
  with le show ?thesis by simp
next
  case (Inf a)
  with le c show ?thesis by (cases a) simp_all
next
  case (Fin a m e)
  show ?thesis
  proof (cases "m = 0")
    case True
    then show ?thesis using Fin c by (simp add: num_mul_Fin)
  next
    case False
    with x le Fin have neg: "a" and pos: "0 < m"
      by (auto split: if_splits)
    have "0 \<le> m * mc" using pos c by simp
    from round_frac_sign [OF this, of 1 True "e + ec"]
    show ?thesis using Fin neg False c
      by (auto simp: num_mul_Fin)
  qed
qed

section \<open>Rounding: the result as a value\<close>

lemma round_frac_unfold:
  "round_frac sg n d x =
     (if 971 < ulp_exp n d x then Inf sg
      else if mantissa n d x = pow2 53
        then (if ulp_exp n d x = 971 then Inf sg else Fin sg (pow2 52) (ulp_exp n d x + 1))
      else Fin sg (mantissa n d x) (ulp_exp n d x))"
  by (simp only: round_frac_def ulp_exp_def mantissa_def Let_def)

lemma pow2_53: "pow2 53 = 2 ^ 53" and pow2_52: "pow2 52 = 2 ^ 52"
  by (simp_all only: pow2_eq nat_numeral)

lemma powi_of_int: "0 \<le> k \<Longrightarrow> (2::rat) powi k = of_int (2 ^ nat k)"
  by (simp add: power_int_nonneg_exp)

lemma of_int_pow2: "0 \<le> k \<Longrightarrow> (of_int (pow2 k) :: rat) = 2 powi k"
  by (simp only: pow2_eq powi_of_int)

lemma pow2_nonpos: "k \<le> 0 \<Longrightarrow> pow2 k = 1"
  by (simp add: pow2_eq)

lemma pow2_ratio: "(of_int (pow2 k) :: rat) / of_int (pow2 (- k)) = 2 powi k"
proof (cases "0 \<le> k")
  case True
  then show ?thesis by (simp add: of_int_pow2 pow2_nonpos)
next
  case False
  then have "(of_int (pow2 (- k)) :: rat) = 2 powi (- k)" and one: "pow2 k = 1"
    by (simp_all add: of_int_pow2 pow2_nonpos)
  then have "(of_int (pow2 (- k)) :: rat) = inverse (2 powi k)"
    by (simp only: power_int_minus)
  then show ?thesis unfolding one by (simp add: divide_inverse)
qed

lemma powi_pos [simp]: "0 < (2::rat) powi k"
  by (simp add: power_int_def)

lemma powi_mono: "a \<le> b \<Longrightarrow> (2::rat) powi a \<le> 2 powi b"
  by (rule power_int_increasing) simp_all

lemma powi_strict_mono: "a < b \<Longrightarrow> (2::rat) powi a < 2 powi b"
  by (rule power_int_strict_increasing) simp_all

lemma powi_add: "(2::rat) powi (a + b) = 2 powi a * 2 powi b"
  by (rule power_int_add) simp

lemma powi_diff: "(2::rat) powi (a - b) = 2 powi a / 2 powi b"
  by (rule power_int_diff) simp

lemma frac_expo_bounds:
  assumes n: "0 < n" and d: "0 < d"
  shows "2 powi (frac_expo n d) \<le> (of_int n / of_int d :: rat)"
    and "(of_int n / of_int d :: rat) < 2 powi (frac_expo n d + 1)"
proof -
  define a where "a = bitlen n"
  define b where "b = bitlen d"
  define k where "k = a - b"
  have a1: "1 \<le> a" and b1: "1 \<le> b"
    using n d by (simp_all add: a_def b_def bitlen_alt_def)
  have "(2::int) ^ nat (a - 1) \<le> n" "n < 2 ^ nat a"
    using bitlen_bounds [OF n] by (simp_all add: a_def)
  then have na: "(2::rat) powi (a - 1) \<le> of_int n" "(of_int n :: rat) < 2 powi a"
    using a1 by (simp_all only: powi_of_int of_int_le_iff of_int_less_iff)
  have "(2::int) ^ nat (b - 1) \<le> d" "d < 2 ^ nat b"
    using bitlen_bounds [OF d] by (simp_all add: b_def)
  then have db: "(2::rat) powi (b - 1) \<le> of_int d" "(of_int d :: rat) < 2 powi b"
    using b1 by (simp_all only: powi_of_int of_int_le_iff of_int_less_iff)
  have dpos: "(0::rat) < of_int d" using d by simp
  have up: "(of_int n / of_int d :: rat) < 2 powi (k + 1)"
  proof -
    have "(of_int n :: rat) < 2 powi a" by (rule na)
    also have "\<dots> = 2 powi (k + 1) * 2 powi (b - 1)"
      by (simp add: k_def flip: powi_add)
    also have "\<dots> \<le> 2 powi (k + 1) * of_int d"
      using db(1) by (simp add: mult_left_mono)
    finally show ?thesis using dpos by (simp add: pos_divide_less_eq)
  qed
  have lo: "(2::rat) powi (k - 1) < of_int n / of_int d"
  proof -
    have "(2::rat) powi (k - 1) * of_int d < 2 powi (k - 1) * 2 powi b"
      using db(2) by (simp add: mult_strict_left_mono)
    also have "\<dots> = 2 powi (a - 1)"
      by (simp add: k_def flip: powi_add)
    also have "\<dots> \<le> of_int n" by (rule na)
    finally show ?thesis using dpos by (simp add: pos_less_divide_eq)
  qed
  have cond: "d * pow2 k \<le> n * pow2 (- k) \<longleftrightarrow> (2::rat) powi k \<le> of_int n / of_int d"
  proof -
    have p: "(0::rat) < of_int (pow2 (- k))" by simp
    have "d * pow2 k \<le> n * pow2 (- k)
        \<longleftrightarrow> (of_int d :: rat) * of_int (pow2 k) \<le> of_int n * of_int (pow2 (- k))"
      by (simp flip: of_int_mult)
    also have "\<dots> \<longleftrightarrow> (of_int (pow2 k) :: rat) / of_int (pow2 (- k)) \<le> of_int n / of_int d"
      using dpos p by (simp add: field_simps)
    finally show ?thesis by (simp add: pow2_ratio)
  qed
  show "2 powi (frac_expo n d) \<le> (of_int n / of_int d :: rat)"
    using cond lo by (auto simp: frac_expo_def Let_def a_def b_def k_def)
  show "(of_int n / of_int d :: rat) < 2 powi (frac_expo n d + 1)"
    using cond up by (auto simp: frac_expo_def Let_def a_def b_def k_def)
qed

lemma rne_div_ge:
  assumes "0 < d" "L * d \<le> n"
  shows "L \<le> rne_div n d"
proof -
  have "L \<le> n div d"
    using assms by (metis zdiv_mono1 nonzero_mult_div_cancel_right less_irrefl)
  then show ?thesis by (simp add: rne_div_def Let_def)
qed

lemma rne_div_le:
  assumes d: "0 < d" and le: "n \<le> U * d"
  shows "rne_div n d \<le> U"
proof -
  have q: "n div d \<le> U"
    using assms by (metis zdiv_mono1 nonzero_mult_div_cancel_right less_irrefl)
  show ?thesis
  proof (cases "n div d = U")
    case False
    with q show ?thesis by (simp add: rne_div_def Let_def)
  next
    case True
    have "n = d * (n div d) + n mod d" by simp
    with True le have "n mod d \<le> 0" by (simp add: algebra_simps)
    moreover have "0 \<le> n mod d" using d by simp
    ultimately have "n mod d = 0" by simp
    with d True show ?thesis by (simp add: rne_div_def Let_def)
  qed
qed

lemma rne_div_err:
  assumes d: "0 < d"
  shows "\<bar>(of_int (rne_div n d) :: rat) - of_int n / of_int d\<bar> \<le> 1 / 2"
proof -
  define q where "q = n div d"
  define r where "r = n mod d"
  have n: "n = d * q + r" by (simp add: q_def r_def)
  have r: "0 \<le> r" "r < d" using d by (simp_all add: r_def)
  have dpos: "(0::rat) < of_int d" using d by simp
  have frac: "(of_int n :: rat) / of_int d = of_int q + of_int r / of_int d"
    using dpos by (simp add: n field_simps)
  have r0: "(0::rat) \<le> of_int r / of_int d" using r dpos by simp
  have lo: "2 * r \<le> d \<Longrightarrow> (of_int r :: rat) / of_int d \<le> 1 / 2"
  proof -
    assume "2 * r \<le> d"
    then have "(of_int (2 * r) :: rat) \<le> of_int d" by (simp only: of_int_le_iff)
    then show ?thesis using dpos by (simp add: field_simps)
  qed
  have hi: "d \<le> 2 * r \<Longrightarrow> 1 / 2 \<le> (of_int r :: rat) / of_int d"
  proof -
    assume "d \<le> 2 * r"
    then have "(of_int d :: rat) \<le> of_int (2 * r)" by (simp only: of_int_le_iff)
    then show ?thesis using dpos by (simp add: field_simps)
  qed
  have r1: "(of_int r :: rat) / of_int d < 1" using r dpos by simp
  have "(rne_div n d = q \<and> 2 * r \<le> d) \<or> (rne_div n d = q + 1 \<and> d \<le> 2 * r)"
    unfolding rne_div_def Let_def q_def [symmetric] r_def [symmetric]
    by (cases "2 * r < d"; cases "d < 2 * r"; cases "even q") simp_all
  then consider "rne_div n d = q" "2 * r \<le> d" | "rne_div n d = q + 1" "d \<le> 2 * r"
    by blast
  then show ?thesis
  proof cases
    case 1
    then show ?thesis using lo r0 by (simp add: frac)
  next
    case 2
    then show ?thesis using hi r1 by (simp add: frac abs_if)
  qed
qed

text \<open>The rounded fraction, with \<open>t\<close> the exact value in units of the last mantissa bit.\<close>

lemma scaled_fraction:
  "(of_int (n * pow2 (x - u)) :: rat) / of_int (d * pow2 (u - x))
     = of_int n / of_int d * 2 powi (x - u)"
proof -
  have "(of_int (pow2 (x - u)) :: rat) / of_int (pow2 (- (x - u))) = 2 powi (x - u)"
    by (rule pow2_ratio)
  then have r: "(of_int (pow2 (x - u)) :: rat) / of_int (pow2 (u - x)) = 2 powi (x - u)"
    by simp
  have "(of_int (n * pow2 (x - u)) :: rat) / of_int (d * pow2 (u - x))
      = of_int n / of_int d * (of_int (pow2 (x - u)) / of_int (pow2 (u - x)))"
    by simp
  then show ?thesis by (simp only: r)
qed

lemma exact_pos: "0 < n \<Longrightarrow> 0 < d \<Longrightarrow> 0 < exact n d x"
  by (simp add: exact_def)

lemma exact_bounds:
  assumes "0 < n" "0 < d"
  shows "2 powi (frac_expo n d + x) \<le> exact n d x"
    and "exact n d x < 2 powi (frac_expo n d + x + 1)"
proof -
  have p: "(0::rat) < 2 powi x" by simp
  have "2 powi (frac_expo n d) * 2 powi x \<le> (of_int n / of_int d :: rat) * 2 powi x"
    using frac_expo_bounds(1) [OF assms] by (rule mult_right_mono) simp
  then show "2 powi (frac_expo n d + x) \<le> exact n d x"
    by (simp only: exact_def powi_add)
  have "exact n d x < 2 powi (frac_expo n d + 1) * 2 powi x"
    unfolding exact_def using frac_expo_bounds(2) [OF assms] p
    by (rule mult_strict_right_mono)
  also have "\<dots> = 2 powi (frac_expo n d + x + 1)"
    by (simp add: algebra_simps flip: powi_add)
  finally show "exact n d x < 2 powi (frac_expo n d + x + 1)" .
qed

lemma ulp_exp_ge: "- 1074 \<le> ulp_exp n d x" "frac_expo n d + x - 52 \<le> ulp_exp n d x"
  by (simp_all add: ulp_exp_def)

lemma mantissa_ge:
  assumes n: "0 < n" and d: "0 < d"
    and L: "(of_int L :: rat) * 2 powi (ulp_exp n d x) \<le> exact n d x"
  shows "L \<le> mantissa n d x"
proof -
  let ?u = "ulp_exp n d x"
  let ?N = "n * pow2 (x - ?u)" and ?D = "d * pow2 (?u - x)"
  have D: "0 < ?D" using d by simp
  have "(of_int L :: rat) \<le> exact n d x / 2 powi ?u"
    using L by (simp add: pos_le_divide_eq)
  also have "\<dots> = of_int ?N / of_int ?D"
    unfolding scaled_fraction by (simp add: exact_def powi_diff)
  finally have "(of_int L :: rat) * of_int ?D \<le> of_int ?N"
    using D by (simp add: pos_le_divide_eq del: of_int_mult)
  then have "L * ?D \<le> ?N"
    by (simp only: of_int_le_iff flip: of_int_mult)
  from rne_div_ge [OF D this] show ?thesis by (simp add: mantissa_def)
qed

lemma mantissa_le:
  assumes n: "0 < n" and d: "0 < d"
    and U: "exact n d x \<le> (of_int U :: rat) * 2 powi (ulp_exp n d x)"
  shows "mantissa n d x \<le> U"
proof -
  let ?u = "ulp_exp n d x"
  let ?N = "n * pow2 (x - ?u)" and ?D = "d * pow2 (?u - x)"
  have D: "0 < ?D" using d by simp
  have "(of_int ?N :: rat) / of_int ?D = exact n d x / 2 powi ?u"
    unfolding scaled_fraction by (simp add: exact_def powi_diff)
  also have "\<dots> \<le> of_int U"
    using U by (simp add: pos_divide_le_eq)
  finally have "(of_int ?N :: rat) \<le> of_int U * of_int ?D"
    using D by (simp add: pos_divide_le_eq del: of_int_mult)
  then have "?N \<le> U * ?D"
    by (simp only: of_int_le_iff flip: of_int_mult)
  from rne_div_le [OF D this] show ?thesis by (simp add: mantissa_def)
qed

lemma mantissa_err:
  assumes n: "0 < n" and d: "0 < d"
  shows "\<bar>(of_int (mantissa n d x) :: rat) * 2 powi (ulp_exp n d x) - exact n d x\<bar>
           \<le> 2 powi (ulp_exp n d x) / 2"
proof -
  let ?u = "ulp_exp n d x"
  let ?N = "n * pow2 (x - ?u)" and ?D = "d * pow2 (?u - x)"
  have D: "0 < ?D" using d by simp
  have t: "(of_int ?N :: rat) / of_int ?D = exact n d x / 2 powi ?u"
    unfolding scaled_fraction by (simp add: exact_def powi_diff)
  have "\<bar>(of_int (mantissa n d x) :: rat) - exact n d x / 2 powi ?u\<bar> \<le> 1 / 2"
    using rne_div_err [OF D, of ?N] unfolding t mantissa_def .
  then have "\<bar>(of_int (mantissa n d x) :: rat) - exact n d x / 2 powi ?u\<bar> * 2 powi ?u
      \<le> 1 / 2 * 2 powi ?u"
    by (rule mult_right_mono) simp
  moreover have "\<bar>(of_int (mantissa n d x) :: rat) - exact n d x / 2 powi ?u\<bar> * 2 powi ?u
      = \<bar>(of_int (mantissa n d x) :: rat) * 2 powi ?u - exact n d x\<bar>"
  proof -
    have "\<bar>(of_int (mantissa n d x) :: rat) - exact n d x / 2 powi ?u\<bar> * \<bar>2 powi ?u\<bar>
      = \<bar>((of_int (mantissa n d x) :: rat) - exact n d x / 2 powi ?u) * 2 powi ?u\<bar>"
      by (simp only: abs_mult)
    then show ?thesis by (simp add: algebra_simps)
  qed
  ultimately show ?thesis by simp
qed

lemma powi_numeral: "(2::rat) ^ k * 2 powi e = 2 powi (e + int k)"
  by (simp add: powi_add)

lemma of_int_less_53: "m < 2 ^ 53 \<Longrightarrow> (of_int m :: rat) < 2 ^ 53"
proof -
  assume "m < 2 ^ 53"
  then have "(of_int m :: rat) < of_int (2 ^ 53)" by (simp only: of_int_less_iff)
  then show ?thesis by simp
qed

lemma mantissa_nonneg: "0 < n \<Longrightarrow> 0 < d \<Longrightarrow> 0 \<le> mantissa n d x"
  by (rule mantissa_ge) (simp_all add: exact_def)

lemma mantissa_le_53:
  assumes "0 < n" "0 < d"
  shows "mantissa n d x \<le> 2 ^ 53"
proof (rule mantissa_le [OF assms])
  have "exact n d x \<le> 2 powi (frac_expo n d + x + 1)"
    by (rule exact_bounds(2) [OF assms, THEN less_imp_le])
  also have "\<dots> \<le> 2 powi (ulp_exp n d x + 53)"
    using ulp_exp_ge(2) [of n d x] by (intro powi_mono) simp
  also have "\<dots> = (2::rat) ^ 53 * 2 powi (ulp_exp n d x)"
    by (simp only: powi_numeral) simp
  finally show "exact n d x \<le> of_int (2 ^ 53) * 2 powi (ulp_exp n d x)"
    by simp
qed

lemma ulp_exp_normal: "- 1074 < ulp_exp n d x \<Longrightarrow> ulp_exp n d x = frac_expo n d + x - 52"
  by (simp add: ulp_exp_def max_def split: if_splits)

lemma mantissa_normal:
  assumes "0 < n" "0 < d" and u: "- 1074 < ulp_exp n d x"
  shows "2 ^ 52 \<le> mantissa n d x"
proof (rule mantissa_ge [OF assms(1,2)])
  have "of_int (2 ^ 52) * 2 powi (ulp_exp n d x) = (2::rat) ^ 52 * 2 powi (ulp_exp n d x)"
    by simp
  also have "\<dots> = 2 powi (frac_expo n d + x)"
    by (simp only: powi_numeral ulp_exp_normal [OF u]) simp
  also have "\<dots> \<le> exact n d x"
    by (rule exact_bounds(1) [OF assms(1,2)])
  finally show "of_int (2 ^ 52) * 2 powi (ulp_exp n d x) \<le> exact n d x" .
qed

lemma round_frac_Fin:
  assumes n: "0 < n" and d: "0 < d" and r: "round_frac sg n d x = Fin s m e"
  shows "s = sg" and "is_double (Fin s m e)" and "of_int m * 2 powi e = rounded n d x"
proof -
  let ?u = "ulp_exp n d x" and ?M = "mantissa n d x"
  have M: "0 \<le> ?M" "?M \<le> 2 ^ 53"
    using mantissa_nonneg [OF n d] mantissa_le_53 [OF n d] by simp_all
  have N: "2 ^ 52 \<le> ?M \<or> ?u = - 1074"
    using mantissa_normal [OF n d, of x] ulp_exp_ge(1) [of n d x] by linarith
  from r have u: "?u \<le> 971"
    by (auto simp: round_frac_unfold split: if_splits)
  show "s = sg" using r by (auto simp: round_frac_unfold split: if_splits)
  consider (carry) "?M = 2 ^ 53" "?u \<noteq> 971" "m = 2 ^ 52" "e = ?u + 1"
    | (plain) "?M \<noteq> 2 ^ 53" "m = ?M" "e = ?u"
    using r by (auto simp: round_frac_unfold pow2_53 pow2_52 split: if_splits)
  then show "is_double (Fin s m e)"
  proof cases
    case carry
    then show ?thesis using u ulp_exp_ge(1) [of n d x] by simp
  next
    case plain
    then show ?thesis using u ulp_exp_ge(1) [of n d x] M N by auto
  qed
  show "of_int m * 2 powi e = rounded n d x"
    using r by (auto simp: round_frac_unfold pow2_53 pow2_52 rounded_def powi_add
        split: if_splits)
qed

lemma round_frac_not_NaN: "round_frac sg n d x \<noteq> NaN"
  by (simp add: round_frac_unfold)

lemma round_frac_Inf:
  "round_frac sg n d x = Inf s \<Longrightarrow> s = sg \<and>
     (971 < ulp_exp n d x \<or> (mantissa n d x = 2 ^ 53 \<and> ulp_exp n d x = 971))"
  by (auto simp: round_frac_unfold pow2_53 split: if_splits)

lemma rounded_lower:
  assumes n: "0 < n" and d: "0 < d"
    and m0: "0 \<le> m0" "m0 < 2 ^ 53" and e0: "- 1074 \<le> e0"
    and le: "(of_int m0 :: rat) * 2 powi e0 \<le> exact n d x"
  shows "(of_int m0 :: rat) * 2 powi e0 \<le> rounded n d x"
proof (cases "ulp_exp n d x \<le> e0")
  case True
  define L where "L = m0 * 2 ^ nat (e0 - ulp_exp n d x)"
  have L: "(of_int L :: rat) * 2 powi (ulp_exp n d x) = of_int m0 * 2 powi e0"
  proof -
    have "(of_int L :: rat) = of_int m0 * 2 powi (e0 - ulp_exp n d x)"
      using True by (simp add: L_def power_int_nonneg_exp)
    then show ?thesis by (simp add: powi_diff)
  qed
  then have "L \<le> mantissa n d x"
    using le by (intro mantissa_ge [OF n d]) simp
  then have "(of_int L :: rat) \<le> of_int (mantissa n d x)" by simp
  then have "(of_int L :: rat) * 2 powi (ulp_exp n d x) \<le> rounded n d x"
    unfolding rounded_def by (rule mult_right_mono) simp
  then show ?thesis by (simp only: L)
next
  case False
  then have u: "- 1074 < ulp_exp n d x" using e0 by simp
  have "(of_int m0 :: rat) \<le> 2 ^ 53" using of_int_less_53 [OF m0(2)] by simp
  then have "(of_int m0 :: rat) * 2 powi e0 \<le> 2 ^ 53 * 2 powi e0"
    by (rule mult_right_mono) simp
  also have "\<dots> = 2 powi (e0 + 53)"
    by (simp only: powi_numeral) simp
  also have "\<dots> \<le> 2 powi (ulp_exp n d x + 52)"
    using False by (intro powi_mono) simp
  also have "\<dots> = (2::rat) ^ 52 * 2 powi (ulp_exp n d x)"
    by (simp only: powi_numeral) simp
  also have "\<dots> \<le> of_int (mantissa n d x) * 2 powi (ulp_exp n d x)"
  proof (rule mult_right_mono)
    have "(of_int (2 ^ 52) :: rat) \<le> of_int (mantissa n d x)"
      using mantissa_normal [OF n d u] by (simp only: of_int_le_iff)
    then show "(2::rat) ^ 52 \<le> of_int (mantissa n d x)" by simp
  qed simp
  finally show ?thesis by (simp only: rounded_def)
qed

lemma rounded_upper:
  assumes n: "0 < n" and d: "0 < d"
    and m0: "0 \<le> m0" "m0 < 2 ^ 53" and e0: "- 1074 \<le> e0"
    and le: "exact n d x \<le> (of_int m0 :: rat) * 2 powi e0"
  shows "rounded n d x \<le> (of_int m0 :: rat) * 2 powi e0" and "ulp_exp n d x \<le> e0"
proof -
  have lt: "(of_int m0 :: rat) * 2 powi e0 < 2 powi (e0 + 53)"
  proof -
    have "(of_int m0 :: rat) < 2 ^ 53" by (rule of_int_less_53 [OF m0(2)])
    then have "(of_int m0 :: rat) * 2 powi e0 < 2 ^ 53 * 2 powi e0"
      by (rule mult_strict_right_mono) simp
    then show ?thesis by (simp only: powi_numeral) simp
  qed
  show u: "ulp_exp n d x \<le> e0"
  proof (rule ccontr)
    assume "\<not> ulp_exp n d x \<le> e0"
    then have gt: "e0 < ulp_exp n d x" by simp
    with e0 have "- 1074 < ulp_exp n d x" by simp
    from ulp_exp_normal [OF this] gt have "e0 + 53 \<le> frac_expo n d + x" by simp
    then have "(2::rat) powi (e0 + 53) \<le> 2 powi (frac_expo n d + x)"
      by (rule powi_mono)
    also have "\<dots> \<le> exact n d x" by (rule exact_bounds(1) [OF n d])
    finally show False using le lt by simp
  qed
  define U where "U = m0 * 2 ^ nat (e0 - ulp_exp n d x)"
  have U: "(of_int U :: rat) * 2 powi (ulp_exp n d x) = of_int m0 * 2 powi e0"
  proof -
    have "(of_int U :: rat) = of_int m0 * 2 powi (e0 - ulp_exp n d x)"
      using u by (simp add: U_def power_int_nonneg_exp)
    then show ?thesis by (simp add: powi_diff)
  qed
  then have "mantissa n d x \<le> U"
    using le by (intro mantissa_le [OF n d]) simp
  then have "(of_int (mantissa n d x) :: rat) \<le> of_int U" by simp
  then have "rounded n d x \<le> (of_int U :: rat) * 2 powi (ulp_exp n d x)"
    unfolding rounded_def by (rule mult_right_mono) simp
  then show "rounded n d x \<le> (of_int m0 :: rat) * 2 powi e0" by (simp only: U)
qed

lemma round_frac_finite:
  assumes n: "0 < n" and d: "0 < d"
    and m0: "0 \<le> m0" "m0 < 2 ^ 53" and e0: "- 1074 \<le> e0" "e0 \<le> 971"
    and le: "exact n d x \<le> (of_int m0 :: rat) * 2 powi e0"
  shows "\<exists>m e. round_frac sg n d x = Fin sg m e"
proof (cases "round_frac sg n d x")
  case NaN
  then show ?thesis by (simp add: round_frac_not_NaN)
next
  case (Fin s m e)
  with round_frac_Fin(1) [OF n d Fin] show ?thesis by simp
next
  case (Inf s)
  have u: "ulp_exp n d x \<le> e0" and r: "rounded n d x \<le> (of_int m0 :: rat) * 2 powi e0"
    using rounded_upper [OF n d m0 e0(1) le] by simp_all
  from round_frac_Inf [OF Inf] u e0
  have M: "mantissa n d x = 2 ^ 53" and u971: "ulp_exp n d x = 971" and e971: "e0 = 971"
    by auto
  have "(of_int m0 :: rat) < 2 ^ 53" by (rule of_int_less_53 [OF m0(2)])
  then have "(of_int m0 :: rat) * 2 powi e0 < 2 ^ 53 * 2 powi e0"
    by (rule mult_strict_right_mono) simp
  with r show ?thesis by (simp add: rounded_def M u971 e971)
qed

section \<open>Addition and comparison, as values\<close>

lemma aligned_value:
  assumes "m = 0 \<or> e0 \<le> e"
  shows "(of_int (aligned sg m e e0) :: rat) * 2 powi e0 = valof (Fin sg m e)"
proof (cases "m = 0")
  case True
  then show ?thesis by (simp add: aligned_def)
next
  case False
  with assms have "e0 \<le> e" by simp
  then have "(of_int (pow2 (e - e0)) :: rat) * 2 powi e0 = 2 powi e"
    by (simp add: of_int_pow2 flip: powi_add)
  then show ?thesis by (simp add: aligned_def algebra_simps)
qed

lemma common_exp_le:
  "m1 = 0 \<or> common_exp m1 e1 m2 e2 \<le> e1" "m2 = 0 \<or> common_exp m1 e1 m2 e2 \<le> e2"
  by (auto simp: common_exp_def)

lemma aligned_values:
  "(of_int (aligned a m1 e1 (common_exp m1 e1 m2 e2)) :: rat) * 2 powi (common_exp m1 e1 m2 e2)
     = valof (Fin a m1 e1)"
  "(of_int (aligned b m2 e2 (common_exp m1 e1 m2 e2)) :: rat) * 2 powi (common_exp m1 e1 m2 e2)
     = valof (Fin b m2 e2)"
  by (rule aligned_value, rule common_exp_le)+

lemma int_cmp_scaled:
  "i \<le> j \<longleftrightarrow> (of_int i :: rat) * 2 powi k \<le> of_int j * 2 powi k"
  "i < j \<longleftrightarrow> (of_int i :: rat) * 2 powi k < of_int j * 2 powi k"
  "i = j \<longleftrightarrow> (of_int i :: rat) * 2 powi k = of_int j * 2 powi k"
  by simp_all

lemma num_le_valof:
  "num_le (Fin a m1 e1) (Fin b m2 e2) \<longleftrightarrow> valof (Fin a m1 e1) \<le> valof (Fin b m2 e2)"
  unfolding num_le_Fin int_cmp_scaled(1) [of _ _ "common_exp m1 e1 m2 e2"] aligned_values ..

lemma num_lt_valof:
  "num_lt (Fin a m1 e1) (Fin b m2 e2) \<longleftrightarrow> valof (Fin a m1 e1) < valof (Fin b m2 e2)"
  unfolding num_lt_Fin int_cmp_scaled(2) [of _ _ "common_exp m1 e1 m2 e2"] aligned_values ..

lemma canonical_unique:
  assumes x: "is_double (Fin a m1 e1)" and y: "is_double (Fin b m2 e2)"
    and eq: "(of_int m1 :: rat) * 2 powi e1 = of_int m2 * 2 powi e2"
  shows "m1 = m2 \<and> e1 = e2"
proof -
  have aux: "False" if le: "e < e'" and d: "is_double (Fin s m e)" "is_double (Fin s' m' e')"
    and v: "(of_int m :: rat) * 2 powi e = of_int m' * 2 powi e'" for s m e s' m' e'
  proof -
    from le d have big: "2 ^ 52 \<le> m'" by auto
    have "(of_int m :: rat) = of_int m' * 2 powi (e' - e)"
      using v by (simp add: powi_diff field_simps)
    also have "\<dots> = of_int (m' * 2 ^ nat (e' - e))"
      using le by (simp add: power_int_nonneg_exp)
    finally have m: "m = m' * 2 ^ nat (e' - e)" by (simp only: of_int_eq_iff)
    have "(2::int) ^ 1 \<le> 2 ^ nat (e' - e)"
      using le by (intro power_increasing) simp_all
    then have "m' * 2 \<le> m' * 2 ^ nat (e' - e)"
      using big by (intro mult_left_mono) simp_all
    with m big d show False by simp
  qed
  have e: "e1 = e2"
    using aux [OF _ x y eq] aux [OF _ y x eq [symmetric]] by (cases e1 e2 rule: linorder_cases) auto
  with eq show ?thesis by simp
qed

lemma is_double_round_frac:
  assumes "0 < n" "0 < d"
  shows "is_double (round_frac sg n d x)"
  using round_frac_Fin(2) [OF assms] by (cases "round_frac sg n d x") auto

lemma is_double_num_add: "is_double (num_add x y)"
proof (cases x; cases y)
  fix a m1 e1 b m2 e2
  assume xy: "x = Fin a m1 e1" "y = Fin b m2 e2"
  let ?n = "aligned a m1 e1 (common_exp m1 e1 m2 e2) + aligned b m2 e2 (common_exp m1 e1 m2 e2)"
  show ?thesis
  proof (cases "?n = 0")
    case True
    then show ?thesis by (simp add: xy Let_def)
  next
    case False
    then have "0 < \<bar>?n\<bar>" by simp
    from is_double_round_frac [OF this, of 1] False show ?thesis
      by (simp add: xy Let_def)
  qed
qed simp_all

lemma is_double_num_sub: "is_double (num_sub x y)"
  by (simp add: num_sub_def is_double_num_add)

lemma is_double_abs: "is_double x \<Longrightarrow> is_double (Math_abs x)"
  by (cases x) auto

text \<open>Adding a positive number to a positive number does not give less.\<close>

lemma num_add_pos_ge:
  assumes x: "is_double (Fin False m1 e1)" and m1: "0 < m1" and m2: "0 < m2"
  shows "num_le (Fin False m1 e1) (num_add (Fin False m1 e1) (Fin False m2 e2))"
    and "num_add (Fin False m1 e1) (Fin False m2 e2) = Inf False \<or>
         (\<exists>m e. num_add (Fin False m1 e1) (Fin False m2 e2) = Fin False m e)"
proof -
  let ?e0 = "common_exp m1 e1 m2 e2"
  let ?n = "aligned False m1 e1 ?e0 + aligned False m2 e2 ?e0"
  have pos: "0 < aligned False m1 e1 ?e0" "0 < aligned False m2 e2 ?e0"
    using m1 m2 by (simp_all add: aligned_def)
  then have n: "0 < ?n" by simp
  have sum: "num_add (Fin False m1 e1) (Fin False m2 e2) = round_frac False ?n 1 ?e0"
    using n by (simp add: Let_def)
  have ex: "exact ?n 1 ?e0 = valof (Fin False m1 e1) + valof (Fin False m2 e2)"
    unfolding exact_def
    using aligned_values(1) [of False m1 e1 m2 e2] aligned_values(2) [of False m2 e2 m1 e1]
    by (simp add: algebra_simps)
  have "(of_int m1 :: rat) * 2 powi e1 \<le> exact ?n 1 ?e0"
    unfolding ex using m2 by simp
  then have low: "(of_int m1 :: rat) * 2 powi e1 \<le> rounded ?n 1 ?e0"
    using x m1 by (intro rounded_lower [OF n]) simp_all
  show shape: "num_add (Fin False m1 e1) (Fin False m2 e2) = Inf False \<or>
         (\<exists>m e. num_add (Fin False m1 e1) (Fin False m2 e2) = Fin False m e)"
    unfolding sum using round_frac_Fin(1) [OF n, of 1 False ?e0] round_frac_Inf [of False ?n 1 ?e0]
    by (cases "round_frac False ?n 1 ?e0") (auto simp: round_frac_not_NaN)
  show "num_le (Fin False m1 e1) (num_add (Fin False m1 e1) (Fin False m2 e2))"
  proof (cases "round_frac False ?n 1 ?e0")
    case NaN
    then show ?thesis by (simp add: round_frac_not_NaN)
  next
    case (Inf s)
    with round_frac_Inf [OF Inf] show ?thesis unfolding sum by simp
  next
    case (Fin s m e)
    have "of_int m * 2 powi e = rounded ?n 1 ?e0" "s = False"
      using round_frac_Fin [OF n _ Fin] by simp_all
    with low show ?thesis unfolding sum Fin num_le_valof by simp
  qed
qed

lemma num_lt_trans: "num_lt a b \<Longrightarrow> num_lt b c \<Longrightarrow> num_lt a c"
  by (cases a; cases b; cases c) (auto simp: num_lt_valof)

lemma num_lt_irrefl: "\<not> num_lt a a"
  by (cases a) (auto simp: num_lt_valof)

lemma positive_cases:
  assumes "num_lt (Fin False 0 (- 1074)) y" "is_double y"
  shows "y = Inf False \<or> (\<exists>m e. y = Fin False m e \<and> 0 < m)"
  using assms by (cases y) (auto split: if_splits)

text \<open>
  Among binary64 values, a value that is neither below a positive value nor that very
  value is above it.
\<close>

lemma num_lt_total:
  assumes a: "is_double a" "\<not> isNaN a" and b: "is_double b"
    and pos: "num_lt (Fin False 0 (- 1074)) b"
    and nlt: "\<not> num_lt a b" and ne: "a \<noteq> b"
  shows "num_lt b a"
proof -
  from positive_cases [OF pos b]
  consider "b = Inf False" | m e where "b = Fin False m e" "0 < m"
    by blast
  then show ?thesis
  proof cases
    case 1
    with a nlt ne show ?thesis by (cases a) auto
  next
    case (2 m e)
    show ?thesis
    proof (cases a)
      case NaN
      with a show ?thesis by simp
    next
      case (Inf s)
      with nlt 2 show ?thesis by (cases s) auto
    next
      case (Fin s m' e')
      from nlt have ge: "valof b \<le> valof a"
        unfolding 2 Fin num_lt_valof by simp
      have bpos: "0 < valof b" using 2 by simp
      with ge have apos: "0 < valof a" by simp
      have s: "\<not> s"
      proof
        assume s
        with a(1) Fin have "valof a \<le> 0" by (simp add: mult_nonneg_nonneg)
        with apos show False by simp
      qed
      have "valof a \<noteq> valof b"
      proof
        assume "valof a = valof b"
        then have "(of_int m' :: rat) * 2 powi e' = of_int m * 2 powi e"
          using s by (simp add: 2 Fin)
        from canonical_unique [OF _ _ this] a(1) b have "m' = m \<and> e' = e"
          unfolding 2 Fin by blast
        with s ne show False by (simp add: 2 Fin)
      qed
      with ge show ?thesis unfolding 2 Fin num_lt_valof by simp
    qed
  qed
qed

lemma max_scan_agree:
  assumes y: "is_double y" "num_lt (Fin False 0 (- 1074)) y"
    and xs: "y \<in> set xs" "list_all is_double xs"
    and h: "h1 = h2 \<or> (below h1 y \<and> below h2 y)"
  shows "max_scan h1 xs = max_scan h2 xs"
  using xs h
proof (induction xs arbitrary: h1 h2)
  case Nil
  then show ?case by simp
next
  case (Cons x xs)
  show ?case
  proof (cases "h1 = h2")
    case True
    then show ?thesis by simp
  next
    case False
    with Cons.prems have b: "below h1 y" "below h2 y" by auto
    have ynz: "y \<noteq> Fin False 0 (- 1074)" using y(2) by (auto simp: num_lt_irrefl)
    show ?thesis
    proof (cases "isNaN x")
      case True
      then show ?thesis by simp
    next
      case nan: False
      define step where
        "step h = (if x = Fin False 0 (- 1074) \<and> h = Fin True 0 (- 1074) then Fin False 0 (- 1074)
                   else if num_lt h x then x else h)" for h
      have unfold: "max_scan h (x # xs) = max_scan (step h) xs" for h
        using nan by (simp add: step_def)
      have xd: "is_double x" using Cons.prems(2) by simp
      show ?thesis
      proof (cases "x = y")
        case True
        have "step h = y" if "below h y" for h
          using that ynz by (auto simp: step_def below_def True num_lt_irrefl)
        with b show ?thesis by (simp only: unfold)
      next
        case xy: False
        with Cons.prems have yin: "y \<in> set xs" and ds: "list_all is_double xs" by auto
        have zero: "below (Fin False 0 (- 1074)) y"
          using y(2) by (simp add: below_def)
        show ?thesis
        proof (cases "num_lt x y")
          case True
          then have bx: "below x y" using xd nan by (simp add: below_def)
          have "below (step h) y" if "below h y" for h
            using that bx zero by (simp add: step_def)
          with b have "below (step h1) y \<and> below (step h2) y" by simp
          then show ?thesis
            unfolding unfold by (intro Cons.IH [OF yin ds]) simp
        next
          case False
          from num_lt_total [OF xd nan y False xy] have yx: "num_lt y x" .
          have xnz: "x \<noteq> Fin False 0 (- 1074)"
            using yx y(2) num_lt_trans [OF y(2) yx] by (auto simp: num_lt_irrefl)
          have "step h = x" if "below h y" for h
            using that yx xnz num_lt_trans [of h y x] by (auto simp: step_def below_def)
          with b show ?thesis by (simp only: unfold)
        qed
      qed
    qed
  qed
qed

lemma Math_max_first:
  "\<not> isNaN z \<Longrightarrow> Math_max (z # rest) = max_scan z rest"
  by (cases z) (auto simp: Math_max_def)


lemma round_frac_lower:
  assumes n: "0 < n" and d: "0 < d"
    and m0: "0 \<le> m0" "m0 < 2 ^ 53" and e0: "- 1074 \<le> e0"
    and le: "(of_int m0 :: rat) * 2 powi e0 \<le> exact n d x"
  shows "round_frac sg n d x = Inf sg \<or>
         (\<exists>m e. round_frac sg n d x = Fin sg m e \<and> is_double (Fin sg m e)
                \<and> (of_int m0 :: rat) * 2 powi e0 \<le> of_int m * 2 powi e)"
proof (cases "round_frac sg n d x")
  case NaN
  then show ?thesis by (simp add: round_frac_not_NaN)
next
  case (Inf s)
  with round_frac_Inf [OF Inf] show ?thesis by simp
next
  case (Fin s m e)
  from round_frac_Fin [OF n d Fin] rounded_lower [OF n d m0 e0 le]
  show ?thesis unfolding Fin by simp
qed

lemma round_frac_upper:
  assumes n: "0 < n" and d: "0 < d"
    and m0: "0 \<le> m0" "m0 < 2 ^ 53" and e0: "- 1074 \<le> e0" "e0 \<le> 971"
    and le: "exact n d x \<le> (of_int m0 :: rat) * 2 powi e0"
  shows "\<exists>m e. round_frac sg n d x = Fin sg m e \<and> is_double (Fin sg m e)
                \<and> (of_int m :: rat) * 2 powi e \<le> of_int m0 * 2 powi e0"
proof -
  from round_frac_finite [OF n d m0 e0 le, of sg] obtain m e where
    r: "round_frac sg n d x = Fin sg m e" by blast
  from round_frac_Fin [OF n d r] rounded_upper(1) [OF n d m0 e0(1) le]
  show ?thesis unfolding r by simp
qed

text \<open>The exact sum of two finite numbers, and what it is rounded from.\<close>

lemma num_add_Fin_cases:
  fixes a m1 e1 b m2 e2
  defines "v \<equiv> valof (Fin a m1 e1) + valof (Fin b m2 e2)"
  shows "(v = 0 \<and> (\<exists>s. num_add (Fin a m1 e1) (Fin b m2 e2) = Fin s 0 (- 1074)))
       \<or> (\<exists>n e0. 0 < n \<and> exact n 1 e0 = \<bar>v\<bar> \<and> v \<noteq> 0
             \<and> num_add (Fin a m1 e1) (Fin b m2 e2) = round_frac (v < 0) n 1 e0)"
proof -
  let ?e0 = "common_exp m1 e1 m2 e2"
  let ?n = "aligned a m1 e1 ?e0 + aligned b m2 e2 ?e0"
  have v: "(of_int ?n :: rat) * 2 powi ?e0 = v"
    unfolding v_def
    using aligned_values(1) [of a m1 e1 m2 e2] aligned_values(2) [of b m2 e2 m1 e1]
    by (simp add: algebra_simps)
  show ?thesis
  proof (cases "?n = 0")
    case True
    with v have "v = 0" by simp
    with True show ?thesis by (simp add: Let_def)
  next
    case False
    have "(of_int ?n :: rat) * 2 powi ?e0 < 0 \<longleftrightarrow> (of_int ?n :: rat) < 0"
      using mult_less_cancel_right_pos [of "(2::rat) powi ?e0" "of_int ?n" 0] by simp
    then have sgn: "v < 0 \<longleftrightarrow> ?n < 0"
      unfolding v by (simp only: of_int_less_0_iff)
    have "v \<noteq> 0" unfolding v [symmetric] using False by simp
    moreover have "exact \<bar>?n\<bar> 1 ?e0 = \<bar>v\<bar>"
      unfolding v [symmetric] exact_def by (simp add: abs_mult)
    moreover have "num_add (Fin a m1 e1) (Fin b m2 e2) = round_frac (v < 0) \<bar>?n\<bar> 1 ?e0"
      using False by (simp add: Let_def sgn)
    moreover have "0 < \<bar>?n\<bar>" using False by simp
    ultimately show ?thesis by blast
  qed
qed

text \<open>
  Adding a positive number that is at least the weight of the last mantissa bit of \<open>z\<close>
  gives a number above \<open>z\<close>.
\<close>

lemma add_up:
  assumes z: "is_double (Fin sg m e)" and st: "is_double (Fin False ms es)"
    and gap: "2 powi e \<le> valof (Fin False ms es)"
  shows "num_lt (Fin sg m e) (num_add (Fin sg m e) (Fin False ms es))"
proof -
  let ?z = "Fin sg m e" and ?s = "Fin False ms es"
  let ?v = "valof ?z + valof ?s"
  have spos: "0 < valof ?s"
    using gap powi_pos [of e] by (rule less_le_trans [rotated])
  have m: "0 \<le> m" "m < 2 ^ 53" and e: "- 1074 \<le> e" "e \<le> 971"
    using z by simp_all
  have p: "(0::rat) < 2 powi e" by simp
  from num_add_Fin_cases [of sg m e False ms es]
  consider (zero) s where "?v = 0" "num_add ?z ?s = Fin s 0 (- 1074)"
    | (round) n e0 where "0 < n" "exact n 1 e0 = \<bar>?v\<bar>" "?v \<noteq> 0"
        "num_add ?z ?s = round_frac (?v < 0) n 1 e0"
    by blast
  then show ?thesis
  proof cases
    case zero
    then have "valof ?z < 0" using spos by linarith
    then show ?thesis unfolding zero(2) num_lt_valof by simp
  next
    case round
    show ?thesis
    proof (cases "?v < 0")
      case True
      then have neg: "valof ?z < 0" using spos by linarith
      then have sg: "sg" and mpos: "0 < m"
        using m(1) p by (auto split: if_splits simp: zero_less_mult_iff mult_less_0_iff)
      have zv: "valof ?z = - (of_int m * 2 powi e)"
        using sg by simp
      have "exact n 1 e0 = of_int m * 2 powi e - valof ?s"
        using round(2) True zv by simp
      also have "\<dots> \<le> of_int m * 2 powi e - 2 powi e"
        using gap by simp
      also have "\<dots> = of_int (m - 1) * 2 powi e"
        by (simp add: algebra_simps)
      finally have up: "exact n 1 e0 \<le> of_int (m - 1) * 2 powi e" .
      from round_frac_upper [OF round(1) _ _ _ e up, of True] mpos m(2)
      obtain m' e' where r: "round_frac True n 1 e0 = Fin True m' e'"
        and le: "(of_int m' :: rat) * 2 powi e' \<le> of_int (m - 1) * 2 powi e"
        by auto
      have "(of_int (m - 1) :: rat) * 2 powi e < of_int m * 2 powi e"
        using p by simp
      with le have "(of_int m' :: rat) * 2 powi e' < of_int m * 2 powi e"
        by (rule le_less_trans)
      then have "valof ?z < valof (Fin True m' e')"
        unfolding zv by simp
      then show ?thesis
        unfolding round(4) using True r by (simp only: num_lt_valof if_True)
    next
      case False
      with round(3) have vpos: "0 < ?v" by simp
      define L :: rat where "L = (if valof ?z < 0 then 0 else of_int (m + 1) * 2 powi e)"
      have zL: "valof ?z < L"
      proof (cases "valof ?z < 0")
        case True
        then show ?thesis by (simp add: L_def)
      next
        case False
        have "valof ?z \<le> of_int m * 2 powi e"
          using m(1) p by (simp add: mult_le_0_iff zero_le_mult_iff)
        also have "\<dots> < of_int (m + 1) * 2 powi e"
          using p by simp
        finally show ?thesis using False by (simp add: L_def)
      qed
      have Lv: "L \<le> exact n 1 e0"
      proof (cases "valof ?z < 0")
        case True
        then show ?thesis using round(2) by (simp add: L_def)
      next
        case False
        then have "valof ?z = of_int m * 2 powi e"
          using m(1) p by (auto split: if_splits simp: zero_less_mult_iff mult_less_0_iff not_less)
        then have "?v = of_int m * 2 powi e + valof ?s" by simp
        also have "\<dots> \<ge> of_int m * 2 powi e + 2 powi e"
          using gap by simp
        finally have "of_int (m + 1) * 2 powi e \<le> ?v"
          by (simp add: algebra_simps)
        then show ?thesis using False vpos round(2) by (simp add: L_def)
      qed
      have "\<exists>m0 e0. 0 \<le> m0 \<and> m0 < 2 ^ 53 \<and> - 1074 \<le> e0 \<and> L = of_int m0 * 2 powi e0"
      proof (cases "valof ?z < 0")
        case True
        then show ?thesis by (intro exI [of _ 0] exI [of _ "- 1074"]) (simp add: L_def)
      next
        case nonneg: False
        show ?thesis
        proof (cases "m + 1 < 2 ^ 53")
          case True
          then show ?thesis
            using nonneg m(1) e(1) by (intro exI [of _ "m + 1"] exI [of _ e]) (simp add: L_def)
        next
          case False
          with m(2) have "m + 1 = 2 ^ 53" by simp
          then have "(of_int (m + 1) :: rat) = of_int (2 ^ 53)" by (simp only:)
          then have m1: "(of_int (m + 1) :: rat) = 2 ^ 52 * 2" by simp
          have "(2::rat) powi (e + 1) = 2 * 2 powi e"
            by (simp only: powi_add) simp
          then have "(of_int (m + 1) :: rat) * 2 powi e = of_int (2 ^ 52) * 2 powi (e + 1)"
            unfolding m1 by simp
          moreover have "L = of_int (m + 1) * 2 powi e"
            using nonneg by (simp only: L_def if_False)
          ultimately have "L = of_int (2 ^ 52) * 2 powi (e + 1)" by (simp only:)
          moreover have "- 1074 \<le> e + 1" using e(1) by simp
          moreover have "(0::int) \<le> 2 ^ 52" "(2::int) ^ 52 < 2 ^ 53" by simp_all
          ultimately show ?thesis by blast
        qed
      qed
      then obtain m0 e0' where m0: "0 \<le> m0" "m0 < 2 ^ 53" "- 1074 \<le> e0'"
        and L: "L = of_int m0 * 2 powi e0'" by blast
      from round_frac_lower [OF round(1) _ m0, of 1 e0 False] Lv
      consider "round_frac False n 1 e0 = Inf False"
        | m' e' where "round_frac False n 1 e0 = Fin False m' e'"
            "L \<le> of_int m' * 2 powi e'"
        unfolding L by auto
      then show ?thesis
      proof cases
        case 1
        then show ?thesis unfolding round(4) using False by simp
      next
        case 2
        with zL have "valof ?z < valof (Fin False m' e')" by simp
        then show ?thesis
          unfolding round(4) using False 2(1) by (simp only: num_lt_valof if_False)
      qed
    qed
  qed
qed

text \<open>Negating both operands negates the sum, up to the sign of a zero.\<close>

lemma round_frac_neg: "round_frac (\<not> sg) n d x = num_neg (round_frac sg n d x)"
  by (simp add: round_frac_unfold)

lemma aligned_neg: "aligned (\<not> a) m e e0 = - aligned a m e e0"
  by (simp add: aligned_def)

lemma num_add_mirror:
  "num_add (Fin (\<not> a) m1 e1) (Fin (\<not> b) m2 e2) = num_neg (num_add (Fin a m1 e1) (Fin b m2 e2))
   \<or> (\<exists>s s'. num_add (Fin (\<not> a) m1 e1) (Fin (\<not> b) m2 e2) = Fin s 0 (- 1074)
             \<and> num_add (Fin a m1 e1) (Fin b m2 e2) = Fin s' 0 (- 1074))"
proof -
  let ?e0 = "common_exp m1 e1 m2 e2"
  let ?n = "aligned a m1 e1 ?e0 + aligned b m2 e2 ?e0"
  have n': "aligned (\<not> a) m1 e1 ?e0 + aligned (\<not> b) m2 e2 ?e0 = - ?n"
    by (simp add: aligned_neg)
  have L: "num_add (Fin (\<not> a) m1 e1) (Fin (\<not> b) m2 e2)
      = (if - ?n = 0 then Fin (\<not> a \<and> \<not> b) 0 (- 1074) else round_frac (- ?n < 0) \<bar>- ?n\<bar> 1 ?e0)"
    by (simp only: num_add.simps Let_def n')
  have R: "num_add (Fin a m1 e1) (Fin b m2 e2)
      = (if ?n = 0 then Fin (a \<and> b) 0 (- 1074) else round_frac (?n < 0) \<bar>?n\<bar> 1 ?e0)"
    by (simp only: num_add.simps Let_def)
  show ?thesis
  proof (cases "?n = 0")
    case True
    then have "- ?n = 0" by simp
    have "num_add (Fin (\<not> a) m1 e1) (Fin (\<not> b) m2 e2) = Fin (\<not> a \<and> \<not> b) 0 (- 1074)"
      unfolding L using True by simp
    moreover have "num_add (Fin a m1 e1) (Fin b m2 e2) = Fin (a \<and> b) 0 (- 1074)"
      unfolding R using True by simp
    ultimately show ?thesis by blast
  next
    case False
    then have "- ?n \<noteq> 0" and "(- ?n < 0) = (\<not> ?n < 0)" and "\<bar>- ?n\<bar> = \<bar>?n\<bar>" by auto
    then have "num_add (Fin (\<not> a) m1 e1) (Fin (\<not> b) m2 e2)
        = num_neg (round_frac (?n < 0) \<bar>?n\<bar> 1 ?e0)"
      unfolding L by (simp only: round_frac_neg if_False)
    moreover have "num_add (Fin a m1 e1) (Fin b m2 e2) = round_frac (?n < 0) \<bar>?n\<bar> 1 ?e0"
      unfolding R using False by simp
    ultimately show ?thesis by simp
  qed
qed

lemma valof_neg: "valof (Fin (\<not> a) m e) = - valof (Fin a m e)"
  by simp

lemma num_lt_neg: "num_lt (num_neg a) (num_neg b) \<longleftrightarrow> num_lt b a"
  by (cases a; cases b) (auto simp: num_lt_valof)

lemma add_down:
  assumes z: "is_double (Fin sg m e)" and st: "is_double (Fin False ms es)"
    and gap: "2 powi e \<le> valof (Fin False ms es)"
  shows "num_lt (num_sub (Fin sg m e) (Fin False ms es)) (Fin sg m e)"
proof -
  let ?W = "num_add (Fin (\<not> sg) m e) (Fin False ms es)"
  have z': "is_double (Fin (\<not> sg) m e)" using z by simp
  have up: "num_lt (Fin (\<not> sg) m e) ?W"
    by (rule add_up [OF z' st gap])
  have sub: "num_sub (Fin sg m e) (Fin False ms es)
      = num_add (Fin (\<not> \<not> sg) m e) (Fin (\<not> False) ms es)"
    by (simp add: num_sub_def)
  from num_add_mirror [of "\<not> sg" m e False ms es]
  consider "num_sub (Fin sg m e) (Fin False ms es) = num_neg ?W"
    | s s' where "num_sub (Fin sg m e) (Fin False ms es) = Fin s 0 (- 1074)"
        "?W = Fin s' 0 (- 1074)"
    unfolding sub by blast
  then show ?thesis
  proof cases
    case 1
    have "num_lt (num_neg ?W) (num_neg (Fin (\<not> sg) m e))"
      unfolding num_lt_neg by (rule up)
    then show ?thesis unfolding 1 by simp
  next
    case 2
    from up have "valof (Fin (\<not> sg) m e) < 0"
      unfolding 2(2) num_lt_valof by simp
    then have "0 < valof (Fin sg m e)"
      unfolding valof_neg by simp
    then show ?thesis unfolding 2(1) num_lt_valof by simp
  qed
qed

section \<open>The operations keep binary64 values\<close>




lemma pow2_neq0 [simp]: "pow2 k \<noteq> 0"
  by (metis pow2_pos less_irrefl)






section \<open>The digits of \<^verbatim>\<open>toFixed\<close>\<close>











section \<open>Order on the numbers\<close>

lemma finite_doubles: "finite {x. is_double x}"
proof -
  have "{x. is_double x} \<subseteq>
      {NaN} \<union> range Inf \<union> (\<lambda>(s, m, e). Fin s m e) ` (UNIV \<times> {0..<2 ^ 53} \<times> {- 1074..971})"
  proof
    fix x assume "x \<in> {x. is_double x}"
    then show "x \<in> {NaN} \<union> range Inf
        \<union> (\<lambda>(s, m, e). Fin s m e) ` (UNIV \<times> {0..<2 ^ 53} \<times> {- 1074..971})"
      by (cases x) (auto simp: image_iff)
  qed
  moreover have "finite ({NaN} \<union> range Inf
      \<union> (\<lambda>(s, m, e). Fin s m e) ` (UNIV \<times> {0..<(2::int) ^ 53} \<times> {- 1074..(971::int)}))"
    by (intro finite_UnI finite_imageI finite_cartesian_product) simp_all
  ultimately show ?thesis by (rule finite_subset)
qed

lemma num_le_refl: "\<not> isNaN a \<Longrightarrow> num_le a a"
  by (cases a) (auto simp: num_le_valof)

lemma num_le_lt_trans: "num_le a b \<Longrightarrow> num_lt b c \<Longrightarrow> num_lt a c"
  by (cases a; cases b; cases c) (auto simp: num_lt_valof num_le_valof)

lemma num_lt_le_trans: "num_lt a b \<Longrightarrow> num_le b c \<Longrightarrow> num_lt a c"
  by (cases a; cases b; cases c) (auto simp: num_lt_valof num_le_valof)

lemma num_le_trans: "num_le a b \<Longrightarrow> num_le b c \<Longrightarrow> num_le a c"
  by (cases a; cases b; cases c) (auto simp: num_le_valof)

lemma num_lt_imp_le: "num_lt a b \<Longrightarrow> num_le a b"
  by (cases a; cases b) (auto simp: num_lt_valof num_le_valof)

lemma num_lt_not_le: "num_lt a b \<Longrightarrow> \<not> num_le b a"
  by (cases a; cases b) (auto simp: num_lt_valof num_le_valof)

lemma num_le_not_NaN: "num_le a b \<Longrightarrow> \<not> isNaN a \<and> \<not> isNaN b"
  by (cases a; cases b) auto

lemma between_finite:
  "num_le a z \<Longrightarrow> num_le z b \<Longrightarrow> is_finite a \<Longrightarrow> is_finite b \<Longrightarrow> is_finite z"
  by (cases a; cases z; cases b) auto

section \<open>The loops of \<^verbatim>\<open>drawBeam\<close> return\<close>

text \<open>
  A step of at least \<open>2^-52\<close> times the larger bound exceeds the weight of the last
  mantissa bit of every number between the bounds.
\<close>

lemma step_gap:
  assumes z: "is_double (Fin sg m e)" and st: "is_double (Fin False ms es)" "0 < ms"
    and le: "\<bar>valof (Fin sg m e)\<bar> \<le> valof (Fin False ms es) * 2 ^ 52"
  shows "2 powi e \<le> valof (Fin False ms es)"
proof (cases "2 ^ 52 \<le> m")
  case True
  have p: "(0::rat) < 2 powi e" by simp
  have "(2::rat) ^ 52 * 2 powi e \<le> of_int m * 2 powi e"
  proof -
    from True have "(of_int (2 ^ 52) :: rat) \<le> of_int m" by (simp only: of_int_le_iff)
    then have "(2::rat) ^ 52 \<le> of_int m" by simp
    then show ?thesis using p by (simp only: mult_le_cancel_right_pos)
  qed
  also have "\<dots> = \<bar>valof (Fin sg m e)\<bar>"
    using True by (simp add: abs_mult)
  also note le
  finally have "2 powi e * (2::rat) ^ 52 \<le> valof (Fin False ms es) * 2 ^ 52"
    by (simp only: mult.commute)
  then show ?thesis by simp
next
  case False
  with z have e: "e = - 1074" by simp
  from st have es: "- 1074 \<le> es" by simp
  have "(2::rat) powi e \<le> 2 powi es"
    unfolding e using es by (rule powi_mono)
  also have "\<dots> = 1 * 2 powi es" by simp
  also have "\<dots> \<le> of_int ms * 2 powi es"
  proof -
    from st(2) have "(1::rat) \<le> of_int ms" by simp
    then show ?thesis by (simp only: mult_le_cancel_right_pos powi_pos)
  qed
  finally show ?thesis by simp
qed

lemma between_abs:
  assumes "num_le (Fin a m1 e1) (Fin sg m e)" "num_le (Fin sg m e) (Fin b m2 e2)"
    and "\<bar>valof (Fin a m1 e1)\<bar> \<le> B" "\<bar>valof (Fin b m2 e2)\<bar> \<le> B"
  shows "\<bar>valof (Fin sg m e)\<bar> \<le> B"
  using assms unfolding num_le_valof by linarith

lemma positive_step:
  assumes "is_double step" "is_finite step" "0 < valof step"
  obtains ms es where "step = Fin False ms es" "0 < ms"
proof (cases step)
  case (Fin sg ms es)
  have p: "(0::rat) < 2 powi es" by simp
  from assms(1) Fin have "0 \<le> ms" by simp
  with assms(3) Fin p have "\<not> sg \<and> 0 < ms"
    by (cases sg; cases "ms = 0") (auto simp: zero_less_mult_iff mult_less_0_iff)
  with Fin that show ?thesis by simp
qed (use assms in simp_all)

lemma samples_up_funpow: "((\<lambda>z. num_add z step) ^^ Suc n) z = ((\<lambda>z. num_add z step) ^^ n) (num_add z step)"
  by (simp only: funpow_Suc_right o_apply)

lemma samples_down_funpow: "((\<lambda>z. num_sub z step) ^^ Suc n) z = ((\<lambda>z. num_sub z step) ^^ n) (num_sub z step)"
  by (simp only: funpow_Suc_right o_apply)

lemma visits_up_0: "visits_up step endZ z 0 \<longleftrightarrow> \<not> num_le z endZ"
  by (simp add: visits_up_def)

lemma visits_up_Suc:
  "visits_up step endZ z (Suc n) \<longleftrightarrow> num_le z endZ \<and> visits_up step endZ (num_add z step) n"
  unfolding visits_up_def samples_up_funpow by simp

lemma visits_down_0: "visits_down step startZ z 0 \<longleftrightarrow> \<not> num_ge z startZ"
  by (simp add: visits_down_def)

lemma visits_down_Suc:
  "visits_down step startZ z (Suc n) \<longleftrightarrow> num_ge z startZ \<and> visits_down step startZ (num_sub z step) n"
  unfolding visits_down_def samples_down_funpow by simp

lemma top_run_Cons:
  "top_run sc wp wr rr sz (z # zs) =
     (if strict_eq z sz then MoveTo else LineTo)
       (num_add (lensX sc) (num_mul z (scaleX sc)))
       (num_sub (opticalAxisY sc)
          (num_mul (num_mul wr (Math_sqrt (num_add (lit 1) (pow_2 (num_div (num_sub z wp) rr)))))
             (scaleY sc)))
     # top_run sc wp wr rr sz zs"
  by (simp add: top_run_def top_point_def beam_radius_def)

lemma bottom_run_Cons:
  "bottom_run sc wp wr rr (z # zs) =
     LineTo
       (num_add (lensX sc) (num_mul z (scaleX sc)))
       (num_add (opticalAxisY sc)
          (num_mul (num_mul wr (Math_sqrt (num_add (lit 1) (pow_2 (num_div (num_sub z wp) rr)))))
             (scaleY sc)))
     # bottom_run sc wp wr rr zs"
  by (simp add: bottom_run_def bottom_point_def beam_radius_def)

text \<open>The top loop returns, having visited the positions from \<open>z\<close> upwards.\<close>

lemma top_envelope_returns:
  assumes step: "num_div (lit 1) (scaleX sc) = Fin False ms es" "is_double (Fin False ms es)" "0 < ms"
    and sz: "is_double sz" "is_finite sz" "\<bar>valof sz\<bar> \<le> valof (Fin False ms es) * 2 ^ 52"
    and ez: "is_double ez" "is_finite ez" "\<bar>valof ez\<bar> \<le> valof (Fin False ms es) * 2 ^ 52"
  shows "is_double z \<Longrightarrow> num_le sz z \<Longrightarrow>
         \<exists>n. visits_up (Fin False ms es) ez z n
            \<and> top_envelope sc wp wr rr sz ez z path
                = Some (path @ top_run sc wp wr rr sz (samples_up (Fin False ms es) z n))"
proof (induction "card {d. is_double d \<and> num_le z d \<and> num_le d ez}" arbitrary: z path
    rule: less_induct)
  case less
  let ?st = "Fin False ms es"
  show ?case
  proof (cases "num_le z ez")
    case False
    then have "top_envelope sc wp wr rr sz ez z path = Some path"
      by (subst top_envelope.simps) simp
    with False show ?thesis
      by (intro exI [of _ 0]) (simp add: visits_up_0 top_run_def)
  next
    case True
    let ?z' = "num_add z ?st"
    have fin: "is_finite z"
      by (rule between_finite [OF less.prems(2) True sz(2) ez(2)])
    then obtain sg m e where z: "z = Fin sg m e" by (cases z) simp_all
    obtain a m1 e1 b m2 e2 where szf: "sz = Fin a m1 e1" and ezf: "ez = Fin b m2 e2"
      using sz(2) ez(2) by (cases sz; cases ez) simp_all
    have "\<bar>valof (Fin sg m e)\<bar> \<le> valof ?st * 2 ^ 52"
      using less.prems(2) True sz(3) ez(3) unfolding z szf ezf by (rule between_abs)
    then have gap: "2 powi e \<le> valof ?st"
      using less.prems(1) step(2,3) unfolding z by (intro step_gap)
    have up: "num_lt z ?z'"
      unfolding z using less.prems(1) step(2) gap unfolding z by (intro add_up)
    have d': "is_double ?z'" by (rule is_double_num_add)
    have le': "num_le sz ?z'"
      by (rule num_lt_imp_le [OF num_le_lt_trans [OF less.prems(2) up]])
    have "{d. is_double d \<and> num_le ?z' d \<and> num_le d ez}
        \<subset> {d. is_double d \<and> num_le z d \<and> num_le d ez}"
    proof
      show "{d. is_double d \<and> num_le ?z' d \<and> num_le d ez}
          \<subseteq> {d. is_double d \<and> num_le z d \<and> num_le d ez}"
        using num_lt_imp_le [OF num_lt_le_trans [OF up]] by auto
      have "z \<in> {d. is_double d \<and> num_le z d \<and> num_le d ez}"
        using less.prems(1) True num_le_refl [of z] z by simp
      moreover have "z \<notin> {d. is_double d \<and> num_le ?z' d \<and> num_le d ez}"
        using num_lt_not_le [OF up] by simp
      ultimately show "{d. is_double d \<and> num_le ?z' d \<and> num_le d ez}
          \<noteq> {d. is_double d \<and> num_le z d \<and> num_le d ez}"
        by blast
    qed
    moreover have "finite {d. is_double d \<and> num_le z d \<and> num_le d ez}"
      by (rule finite_subset [OF _ finite_doubles]) auto
    ultimately have "card {d. is_double d \<and> num_le ?z' d \<and> num_le d ez}
        < card {d. is_double d \<and> num_le z d \<and> num_le d ez}"
      by (intro psubset_card_mono)
    from less.hyps [OF this d' le', of "path @ top_run sc wp wr rr sz [z]"] obtain n where
      n: "visits_up ?st ez ?z' n" and
      run: "top_envelope sc wp wr rr sz ez ?z' (path @ top_run sc wp wr rr sz [z])
              = Some ((path @ top_run sc wp wr rr sz [z])
                      @ top_run sc wp wr rr sz (samples_up ?st ?z' n))"
      by blast
    have "top_envelope sc wp wr rr sz ez z path
        = top_envelope sc wp wr rr sz ez ?z' (path @ top_run sc wp wr rr sz [z])"
      by (subst top_envelope.simps)
        (simp add: True step(1) top_run_def top_point_def beam_radius_def)
    also note run
    also have "(path @ top_run sc wp wr rr sz [z]) @ top_run sc wp wr rr sz (samples_up ?st ?z' n)
        = path @ top_run sc wp wr rr sz (samples_up ?st z (Suc n))"
      by (simp add: top_run_def)
    finally have "top_envelope sc wp wr rr sz ez z path
        = Some (path @ top_run sc wp wr rr sz (samples_up ?st z (Suc n)))" .
    moreover have "visits_up ?st ez z (Suc n)"
      using True n by (simp only: visits_up_Suc simp_thms)
    ultimately show ?thesis by blast
  qed
qed

text \<open>The bottom loop returns, having visited the positions from \<open>z\<close> downwards.\<close>

lemma bottom_envelope_returns:
  assumes step: "num_div (lit 1) (scaleX sc) = Fin False ms es" "is_double (Fin False ms es)" "0 < ms"
    and sz: "is_double sz" "is_finite sz" "\<bar>valof sz\<bar> \<le> valof (Fin False ms es) * 2 ^ 52"
    and ez: "is_double ez" "is_finite ez" "\<bar>valof ez\<bar> \<le> valof (Fin False ms es) * 2 ^ 52"
  shows "is_double z \<Longrightarrow> num_le z ez \<Longrightarrow>
         \<exists>n. visits_down (Fin False ms es) sz z n
            \<and> bottom_envelope sc wp wr rr sz ez z path
                = Some (path @ bottom_run sc wp wr rr (samples_down (Fin False ms es) z n))"
proof (induction "card {d. is_double d \<and> num_le sz d \<and> num_le d z}" arbitrary: z path
    rule: less_induct)
  case less
  let ?st = "Fin False ms es"
  show ?case
  proof (cases "num_ge z sz")
    case False
    then have "bottom_envelope sc wp wr rr sz ez z path = Some path"
      by (subst bottom_envelope.simps) simp
    with False show ?thesis
      by (intro exI [of _ 0]) (simp add: visits_down_0 bottom_run_def)
  next
    case True
    then have ge: "num_le sz z" by (simp add: num_ge_def)
    let ?z' = "num_sub z ?st"
    have fin: "is_finite z"
      by (rule between_finite [OF ge less.prems(2) sz(2) ez(2)])
    then obtain sg m e where z: "z = Fin sg m e" by (cases z) simp_all
    obtain a m1 e1 b m2 e2 where szf: "sz = Fin a m1 e1" and ezf: "ez = Fin b m2 e2"
      using sz(2) ez(2) by (cases sz; cases ez) simp_all
    have "\<bar>valof (Fin sg m e)\<bar> \<le> valof ?st * 2 ^ 52"
      using ge less.prems(2) sz(3) ez(3) unfolding z szf ezf by (rule between_abs)
    then have gap: "2 powi e \<le> valof ?st"
      using less.prems(1) step(2,3) unfolding z by (intro step_gap)
    have down: "num_lt ?z' z"
      unfolding z using less.prems(1) step(2) gap unfolding z by (intro add_down)
    have d': "is_double ?z'" by (rule is_double_num_sub)
    have le': "num_le ?z' ez"
      by (rule num_lt_imp_le [OF num_lt_le_trans [OF down less.prems(2)]])
    have "{d. is_double d \<and> num_le sz d \<and> num_le d ?z'}
        \<subset> {d. is_double d \<and> num_le sz d \<and> num_le d z}"
    proof
      show "{d. is_double d \<and> num_le sz d \<and> num_le d ?z'}
          \<subseteq> {d. is_double d \<and> num_le sz d \<and> num_le d z}"
        using num_lt_imp_le [OF num_le_lt_trans [OF _ down]] by auto
      have "z \<in> {d. is_double d \<and> num_le sz d \<and> num_le d z}"
        using less.prems(1) ge num_le_refl [of z] z by simp
      moreover have "z \<notin> {d. is_double d \<and> num_le sz d \<and> num_le d ?z'}"
        using num_lt_not_le [OF down] by simp
      ultimately show "{d. is_double d \<and> num_le sz d \<and> num_le d ?z'}
          \<noteq> {d. is_double d \<and> num_le sz d \<and> num_le d z}"
        by blast
    qed
    moreover have "finite {d. is_double d \<and> num_le sz d \<and> num_le d z}"
      by (rule finite_subset [OF _ finite_doubles]) auto
    ultimately have "card {d. is_double d \<and> num_le sz d \<and> num_le d ?z'}
        < card {d. is_double d \<and> num_le sz d \<and> num_le d z}"
      by (intro psubset_card_mono)
    from less.hyps [OF this d' le', of "path @ bottom_run sc wp wr rr [z]"] obtain n where
      n: "visits_down ?st sz ?z' n" and
      run: "bottom_envelope sc wp wr rr sz ez ?z' (path @ bottom_run sc wp wr rr [z])
              = Some ((path @ bottom_run sc wp wr rr [z])
                      @ bottom_run sc wp wr rr (samples_down ?st ?z' n))"
      by blast
    have "bottom_envelope sc wp wr rr sz ez z path
        = bottom_envelope sc wp wr rr sz ez ?z' (path @ bottom_run sc wp wr rr [z])"
      by (subst bottom_envelope.simps)
        (simp add: True step(1) bottom_run_def bottom_point_def beam_radius_def)
    also note run
    also have "(path @ bottom_run sc wp wr rr [z]) @ bottom_run sc wp wr rr (samples_down ?st ?z' n)
        = path @ bottom_run sc wp wr rr (samples_down ?st z (Suc n))"
      by (simp add: bottom_run_def)
    finally have "bottom_envelope sc wp wr rr sz ez z path
        = Some (path @ bottom_run sc wp wr rr (samples_down ?st z (Suc n)))" .
    moreover have "visits_down ?st sz z (Suc n)"
      using True n by (simp only: visits_down_Suc simp_thms)
    ultimately show ?thesis by blast
  qed
qed

text \<open>Both loops of \<^verbatim>\<open>drawBeam\<close> return when the step is steady.\<close>

lemma drawBeam_returns:
  assumes "steady sc startZ endZ"
  shows "\<exists>n m. 0 < n \<and> 0 < m
           \<and> visits_up (num_div (lit 1) (scaleX sc)) endZ startZ n
           \<and> visits_down (num_div (lit 1) (scaleX sc)) startZ endZ m
           \<and> drawBeam sc wp wr rr startZ endZ
               = Some (BeginPath
                       # top_run sc wp wr rr startZ
                           (samples_up (num_div (lit 1) (scaleX sc)) startZ n)
                       @ bottom_run sc wp wr rr
                           (samples_down (num_div (lit 1) (scaleX sc)) endZ m)
                       @ closing)"
proof -
  let ?st = "num_div (lit 1) (scaleX sc)"
  from assms have st: "is_double ?st" "is_finite ?st" "0 < valof ?st"
    and sz: "is_double startZ" "is_finite startZ" "\<bar>valof startZ\<bar> \<le> valof ?st * 2 ^ 52"
    and ez: "is_double endZ" "is_finite endZ" "\<bar>valof endZ\<bar> \<le> valof ?st * 2 ^ 52"
    and le: "num_le startZ endZ"
    by (simp_all add: steady_def Let_def)
  from positive_step [OF st] obtain ms es where step: "?st = Fin False ms es" and ms: "0 < ms"
    by blast
  note stp = step st(1) [unfolded step] ms
  note szs = sz [unfolded step] and ezs = ez [unfolded step]
  have "\<not> isNaN startZ" using sz(2) by (cases startZ) simp_all
  moreover have "\<not> isNaN endZ" using ez(2) by (cases endZ) simp_all
  ultimately have nan: "\<not> isNaN startZ" "\<not> isNaN endZ" .
  from top_envelope_returns [OF stp szs ezs sz(1) num_le_refl [OF nan(1)],
      of wp wr rr "[BeginPath]"]
  obtain n where n: "visits_up ?st endZ startZ n"
    and top: "top_envelope sc wp wr rr startZ endZ startZ [BeginPath]
        = Some ([BeginPath] @ top_run sc wp wr rr startZ (samples_up ?st startZ n))"
    unfolding step by blast
  from bottom_envelope_returns [OF stp szs ezs ez(1) num_le_refl [OF nan(2)],
      of wp wr rr "[BeginPath] @ top_run sc wp wr rr startZ (samples_up ?st startZ n)"]
  obtain m where m: "visits_down ?st startZ endZ m"
    and bot: "bottom_envelope sc wp wr rr startZ endZ endZ
          ([BeginPath] @ top_run sc wp wr rr startZ (samples_up ?st startZ n))
        = Some (([BeginPath] @ top_run sc wp wr rr startZ (samples_up ?st startZ n))
                @ bottom_run sc wp wr rr (samples_down ?st endZ m))"
    unfolding step by blast
  have "0 < n"
    using n le by (cases n) (simp_all add: visits_up_0)
  moreover have "0 < m"
    using m le by (cases m) (simp_all add: visits_down_0 num_ge_def)
  moreover have "drawBeam sc wp wr rr startZ endZ
      = Some (BeginPath # top_run sc wp wr rr startZ (samples_up ?st startZ n)
              @ bottom_run sc wp wr rr (samples_down ?st endZ m) @ closing)"
    using top bot by (simp add: drawBeam_def closing_def)
  ultimately show ?thesis using n m by blast
qed

section \<open>The guard\<close>

lemma rejected_to_SI:
  assumes "is_double (lambda_nm ins)" "is_double (f_mm ins)" "is_double (w0_mm ins)"
    and "isNaN (lambda_nm ins) \<or> isNaN (f_mm ins) \<or> isNaN (s_mm ins) \<or> isNaN (w0_mm ins)
         \<or> num_le (lambda_nm ins) (lit 0) \<or> num_le (f_mm ins) (lit 0)
         \<or> num_le (w0_mm ins) (lit 0)"
  shows "rejected (to_SI ins)"
proof -
  have nan: "isNaN y \<Longrightarrow> isNaN (num_mul y c)" for y c
    by (cases y) simp_all
  have nan': "isNaN y \<Longrightarrow> isNaN (num_mul (num_neg y) c)" for y c
    by (cases y) simp_all
  have le9: "is_double y \<Longrightarrow> num_le y (lit 0) \<Longrightarrow> num_le (num_mul y (lit (1 / 10 ^ 9))) (lit 0)" for y
    unfolding lit_1e9 by (rule scale_le_zero) simp_all
  have le3: "is_double y \<Longrightarrow> num_le y (lit 0) \<Longrightarrow> num_le (num_mul y (lit (1 / 10 ^ 3))) (lit 0)" for y
    unfolding lit_1e3 by (rule scale_le_zero) simp_all
  show ?thesis
    using assms nan nan' le9 le3
    unfolding rejected_def to_SI_def by auto
qed

text \<open>
  Claim C2. When a parsed field value is NaN, or the wavelength, the focal length or the
  waist is at or below zero, the update cycle stops at the guard: the calculation gives
  no result, and the cycle returns the page as it was, with every output text and the
  canvas untouched.
\<close>

theorem C2_invalid_input_leaves_page:
  assumes "is_double (lambda_nm ins)" "is_double (f_mm ins)" "is_double (w0_mm ins)"
    and "isNaN (lambda_nm ins) \<or> isNaN (f_mm ins) \<or> isNaN (s_mm ins) \<or> isNaN (w0_mm ins)
         \<or> num_le (lambda_nm ins) (lit 0) \<or> num_le (f_mm ins) (lit 0)
         \<or> num_le (w0_mm ins) (lit 0)"
  shows "calculate (to_SI ins) = None \<and> updateVisualization ins pg = Some pg"
  using rejected_to_SI [OF assms]
  by (simp add: calculate_def updateVisualization_def)

section \<open>The calculator\<close>

text \<open>
  Claim C1. For every valid input the calculator returns the seven values of the
  formulas, each computed from the ones before it: \<open>zR\<close>, \<open>w0'\<close>, \<open>\<alpha>\<close>, \<open>s'\<close>, \<open>\<theta>\<close>, \<open>\<theta>'\<close> and
  \<open>zR'\<close>.
\<close>

theorem C1_calculator_formulas:
  assumes "valid_input i"
  shows "calculate i =
           Some \<lparr> zr = spec_zR i, w0_prime = spec_w0' i, alpha = spec_alpha i,
                  s_prime = spec_s' i, theta_in = spec_theta i,
                  theta_prime = spec_theta' i, zr_prime = spec_zR' i \<rparr>"
proof -
  have "\<not> rejected i"
    using assms not_le_zero_iff
    unfolding valid_input_def rejected_def by auto
  then show ?thesis
    by (simp add: calculate_def Let_def spec_zR_def spec_w0'_def spec_alpha_def
        spec_s'_def spec_theta_def spec_theta'_def spec_zR'_def)
qed

theorem C1_witness:
  "valid_input (to_SI scenario) \<and>
   calculate (to_SI scenario) =
     Some \<lparr> zr = spec_zR (to_SI scenario), w0_prime = spec_w0' (to_SI scenario),
            alpha = spec_alpha (to_SI scenario), s_prime = spec_s' (to_SI scenario),
            theta_in = spec_theta (to_SI scenario),
            theta_prime = spec_theta' (to_SI scenario),
            zr_prime = spec_zR' (to_SI scenario) \<rparr>"
proof -
  have h: "valid_input (to_SI scenario)"
    by code_simp
  from h C1_calculator_formulas [OF h] show ?thesis
    by (rule conjI)
qed

theorem C2_witness:
  "is_double (lambda_nm (scenario \<lparr> w0_mm := lit 0 \<rparr>)) \<and>
   is_double (f_mm (scenario \<lparr> w0_mm := lit 0 \<rparr>)) \<and>
   is_double (w0_mm (scenario \<lparr> w0_mm := lit 0 \<rparr>)) \<and>
   num_le (w0_mm (scenario \<lparr> w0_mm := lit 0 \<rparr>)) (lit 0) \<and>
   calculate (to_SI (scenario \<lparr> w0_mm := lit 0 \<rparr>)) = None \<and>
   updateVisualization (scenario \<lparr> w0_mm := lit 0 \<rparr>) (blank_page 4 3) = Some (blank_page 4 3)"
proof -
  let ?i = "scenario \<lparr> w0_mm := lit 0 \<rparr>"
  have d: "is_double (lambda_nm ?i)" "is_double (f_mm ?i)" "is_double (w0_mm ?i)"
    by code_simp+
  have z: "num_le (w0_mm ?i) (lit 0)"
    by code_simp
  from d z C2_invalid_input_leaves_page [OF d, of "blank_page 4 3"] show ?thesis
    by blast
qed

text \<open>
  Claim C3 says that an infinite component makes the input invalid. The guard does not
  look at finiteness: with an infinite object distance the calculator returns a result
  and the cycle rewrites the outputs.
\<close>

theorem C3_counterexample:
  "\<not> is_finite (s_m (to_SI infinite_distance)) \<and>
   calculate (to_SI infinite_distance) \<noteq> None \<and>
   map_option out_s_prime (updateVisualization infinite_distance (blank_page 4 3))
     = Some [Lit ''NaN'']"
  by code_simp

lemma cycle_outputs:
  assumes "calculate (to_SI ins) = Some r"
  shows "updateVisualization ins pg =
           map_option (\<lambda>cmds. (show_results r pg) \<lparr> ctx := ctx pg @ cmds \<rparr>)
             (drawCanvas (canvas_width pg) (canvas_height pg) (to_SI ins) r)"
  using assms by (simp add: updateVisualization_def split: option.splits)

text \<open>
  Claim C3, amended. For field values whose converted input has a non-finite component,
  the cycle stops at the guard exactly when a component is NaN, or the wavelength, the
  focal length or the waist is \<open>-\<infinity>\<close> (or a finite one of them is at or below zero); it
  then returns the page as it was. Otherwise, so with \<open>+\<infinity>\<close> in any component or an
  infinite object distance, the calculator returns a result and the six outputs are
  rewritten from it (lines 60 to 65) before the drawing starts; the cycle ends with that
  page and the drawing appended, whenever the drawing returns.
\<close>

theorem C3_guard_ignores_infinity:
  assumes "\<not> is_finite (lambda_m (to_SI ins)) \<or> \<not> is_finite (f_m (to_SI ins))
           \<or> \<not> is_finite (s_m (to_SI ins)) \<or> \<not> is_finite (w0_m (to_SI ins))"
  shows "(calculate (to_SI ins) = None \<longleftrightarrow>
            isNaN (lambda_m (to_SI ins)) \<or> isNaN (f_m (to_SI ins))
            \<or> isNaN (s_m (to_SI ins)) \<or> isNaN (w0_m (to_SI ins))
            \<or> lambda_m (to_SI ins) = Inf True \<or> f_m (to_SI ins) = Inf True
            \<or> w0_m (to_SI ins) = Inf True
            \<or> (is_finite (lambda_m (to_SI ins)) \<and> num_le (lambda_m (to_SI ins)) (lit 0))
            \<or> (is_finite (f_m (to_SI ins)) \<and> num_le (f_m (to_SI ins)) (lit 0))
            \<or> (is_finite (w0_m (to_SI ins)) \<and> num_le (w0_m (to_SI ins)) (lit 0)))
       \<and> (calculate (to_SI ins) = None \<longrightarrow> updateVisualization ins pg = Some pg)
       \<and> (\<forall>r. calculate (to_SI ins) = Some r \<longrightarrow>
              updateVisualization ins pg =
                map_option (\<lambda>cmds. (show_results r pg) \<lparr> ctx := ctx pg @ cmds \<rparr>)
                  (drawCanvas (canvas_width pg) (canvas_height pg) (to_SI ins) r)
              \<and> out_s_prime (show_results r pg) = toFixed (num_mul (s_prime r) (lit 1000)) 2
              \<and> out_w0_prime (show_results r pg) = toFixed (num_mul (w0_prime r) (lit 1000)) 3
              \<and> out_zr_in (show_results r pg) = toFixed (num_mul (zr r) (lit 1000)) 2
              \<and> out_zr_prime (show_results r pg) = toFixed (num_mul (zr_prime r) (lit 1000)) 2
              \<and> out_theta_in (show_results r pg) = toFixed (num_mul (theta_in r) (lit 1000)) 3
              \<and> out_theta_prime (show_results r pg)
                  = toFixed (num_mul (theta_prime r) (lit 1000)) 3)"
proof -
  let ?i = "to_SI ins"
  have le: "num_le x (lit 0) \<longleftrightarrow> x = Inf True \<or> (is_finite x \<and> num_le x (lit 0))" for x
    by (cases x) auto
  have "calculate ?i = None \<longleftrightarrow> rejected ?i"
    by (simp add: calculate_def Let_def)
  also have "\<dots> \<longleftrightarrow> isNaN (lambda_m ?i) \<or> isNaN (f_m ?i) \<or> isNaN (s_m ?i) \<or> isNaN (w0_m ?i)
      \<or> num_le (w0_m ?i) (lit 0) \<or> num_le (lambda_m ?i) (lit 0) \<or> num_le (f_m ?i) (lit 0)"
    by (auto simp: rejected_def)
  finally have guard: "calculate ?i = None \<longleftrightarrow>
      isNaN (lambda_m ?i) \<or> isNaN (f_m ?i) \<or> isNaN (s_m ?i) \<or> isNaN (w0_m ?i)
      \<or> lambda_m ?i = Inf True \<or> f_m ?i = Inf True \<or> w0_m ?i = Inf True
      \<or> (is_finite (lambda_m ?i) \<and> num_le (lambda_m ?i) (lit 0))
      \<or> (is_finite (f_m ?i) \<and> num_le (f_m ?i) (lit 0))
      \<or> (is_finite (w0_m ?i) \<and> num_le (w0_m ?i) (lit 0))"
    using le [of "lambda_m ?i"] le [of "f_m ?i"] le [of "w0_m ?i"] by blast
  have stop: "calculate ?i = None \<longrightarrow> updateVisualization ins pg = Some pg"
    by (simp add: updateVisualization_def)
  have go: "updateVisualization ins pg =
        map_option (\<lambda>cmds. (show_results r pg) \<lparr> ctx := ctx pg @ cmds \<rparr>)
          (drawCanvas (canvas_width pg) (canvas_height pg) ?i r)
      \<and> out_s_prime (show_results r pg) = toFixed (num_mul (s_prime r) (lit 1000)) 2
      \<and> out_w0_prime (show_results r pg) = toFixed (num_mul (w0_prime r) (lit 1000)) 3
      \<and> out_zr_in (show_results r pg) = toFixed (num_mul (zr r) (lit 1000)) 2
      \<and> out_zr_prime (show_results r pg) = toFixed (num_mul (zr_prime r) (lit 1000)) 2
      \<and> out_theta_in (show_results r pg) = toFixed (num_mul (theta_in r) (lit 1000)) 3
      \<and> out_theta_prime (show_results r pg) = toFixed (num_mul (theta_prime r) (lit 1000)) 3"
    if "calculate ?i = Some r" for r
    using cycle_outputs [OF that, of pg] by (simp add: show_results_def)
  from guard stop go show ?thesis by blast
qed

lemma infinite_distance_calc:
  "calculate (to_SI infinite_distance) = Some (the (calculate (to_SI infinite_distance)))"
proof -
  have "calculate (to_SI infinite_distance) \<noteq> None" by code_simp
  then show ?thesis by simp
qed

theorem C3_witness:
  "\<not> is_finite (s_m (to_SI infinite_distance)) \<and>
   calculate (to_SI infinite_distance) = Some (the (calculate (to_SI infinite_distance))) \<and>
   updateVisualization infinite_distance (blank_page 4 3) =
     map_option
       (\<lambda>cmds. (show_results (the (calculate (to_SI infinite_distance))) (blank_page 4 3))
                 \<lparr> ctx := ctx (blank_page 4 3) @ cmds \<rparr>)
       (drawCanvas (canvas_width (blank_page 4 3)) (canvas_height (blank_page 4 3))
          (to_SI infinite_distance) (the (calculate (to_SI infinite_distance)))) \<and>
   out_s_prime (show_results (the (calculate (to_SI infinite_distance))) (blank_page 4 3))
     = toFixed (num_mul (s_prime (the (calculate (to_SI infinite_distance)))) (lit 1000)) 2 \<and>
   out_w0_prime (show_results (the (calculate (to_SI infinite_distance))) (blank_page 4 3))
     = toFixed (num_mul (w0_prime (the (calculate (to_SI infinite_distance)))) (lit 1000)) 3 \<and>
   out_zr_in (show_results (the (calculate (to_SI infinite_distance))) (blank_page 4 3))
     = toFixed (num_mul (zr (the (calculate (to_SI infinite_distance)))) (lit 1000)) 2 \<and>
   out_zr_prime (show_results (the (calculate (to_SI infinite_distance))) (blank_page 4 3))
     = toFixed (num_mul (zr_prime (the (calculate (to_SI infinite_distance)))) (lit 1000)) 2 \<and>
   out_theta_in (show_results (the (calculate (to_SI infinite_distance))) (blank_page 4 3))
     = toFixed (num_mul (theta_in (the (calculate (to_SI infinite_distance)))) (lit 1000)) 3 \<and>
   out_theta_prime (show_results (the (calculate (to_SI infinite_distance))) (blank_page 4 3))
     = toFixed (num_mul (theta_prime (the (calculate (to_SI infinite_distance)))) (lit 1000)) 3"
proof -
  have inf: "\<not> is_finite (s_m (to_SI infinite_distance))"
    by code_simp
  then have h: "\<not> is_finite (lambda_m (to_SI infinite_distance))
      \<or> \<not> is_finite (f_m (to_SI infinite_distance))
      \<or> \<not> is_finite (s_m (to_SI infinite_distance))
      \<or> \<not> is_finite (w0_m (to_SI infinite_distance))"
    by blast
  from C3_guard_ignores_infinity [OF h, of "blank_page 4 3"] infinite_distance_calc inf
  show ?thesis by blast
qed

section \<open>The outputs\<close>

lemma scenario_run: "updateVisualization scenario (blank_page 4 3) \<noteq> None"
  by code_simp





section \<open>The beam envelopes\<close>

lemma top_envelope_path:
  "top_envelope sc waistPos waistRadius rayleighRange startZ endZ z path = Some out
   \<Longrightarrow> \<exists>zs cs. out = path @ cs \<and> top_boundary sc waistPos waistRadius rayleighRange endZ zs cs"
proof (rule top_envelope.raw_induct
    [where P = "\<lambda>sc wp wr rr sz ez z path out.
                  \<exists>zs cs. out = path @ cs \<and> top_boundary sc wp wr rr ez zs cs"], goal_cases)
  case (1 loop sc wp wr rr sz ez z path out)
  show ?case
  proof (cases "num_le z ez")
    case False
    with 1(3) have "out = path" by simp
    then show ?thesis
      by (intro exI [of _ "[]"]) (simp add: top_boundary_def)
  next
    case True
    define c where "c = (if strict_eq z sz then MoveTo else LineTo)
               (num_add (lensX sc) (num_mul z (scaleX sc)))
               (num_sub (opticalAxisY sc)
                 (num_mul
                   (num_mul wr
                     (Math_sqrt (num_add (lit 1)
                        (pow_2 (num_div (num_sub z wp) rr)))))
                   (scaleY sc)))"
    from True 1(3) have "loop sc wp wr rr sz ez
        (num_add z (num_div (lit 1) (scaleX sc))) (path @ [c]) = Some out"
      unfolding c_def by simp
    from 1(2) [OF this] obtain zs cs where
      out: "out = (path @ [c]) @ cs" and ok: "top_boundary sc wp wr rr ez zs cs"
      by blast
    have c: "target c = Some (top_point sc wp wr rr z)"
      by (simp add: c_def top_point_def beam_radius_def)
    have "top_boundary sc wp wr rr ez (z # zs) (c # cs)"
      using True c ok by (simp add: top_boundary_def)
    moreover have "out = path @ (c # cs)" using out by simp
    ultimately show ?thesis by blast
  qed
qed

lemma bottom_envelope_path:
  "bottom_envelope sc waistPos waistRadius rayleighRange startZ endZ z path = Some out
   \<Longrightarrow> \<exists>zs cs. out = path @ cs
         \<and> bottom_boundary sc waistPos waistRadius rayleighRange startZ zs cs"
proof (rule bottom_envelope.raw_induct
    [where P = "\<lambda>sc wp wr rr sz ez z path out.
                  \<exists>zs cs. out = path @ cs \<and> bottom_boundary sc wp wr rr sz zs cs"], goal_cases)
  case (1 loop sc wp wr rr sz ez z path out)
  show ?case
  proof (cases "num_ge z sz")
    case False
    with 1(3) have "out = path" by simp
    then show ?thesis
      by (intro exI [of _ "[]"]) (simp add: bottom_boundary_def)
  next
    case True
    define c where "c = LineTo
               (num_add (lensX sc) (num_mul z (scaleX sc)))
               (num_add (opticalAxisY sc)
                 (num_mul
                   (num_mul wr
                     (Math_sqrt (num_add (lit 1)
                        (pow_2 (num_div (num_sub z wp) rr)))))
                   (scaleY sc)))"
    from True 1(3) have "loop sc wp wr rr sz ez
        (num_sub z (num_div (lit 1) (scaleX sc))) (path @ [c]) = Some out"
      unfolding c_def by simp
    from 1(2) [OF this] obtain zs cs where
      out: "out = (path @ [c]) @ cs" and ok: "bottom_boundary sc wp wr rr sz zs cs"
      by blast
    have c: "target c = Some (bottom_point sc wp wr rr z)"
      by (simp add: c_def bottom_point_def beam_radius_def)
    have "bottom_boundary sc wp wr rr sz (z # zs) (c # cs)"
      using True c ok by (simp add: bottom_boundary_def)
    moreover have "out = path @ (c # cs)" using out by simp
    ultimately show ?thesis by blast
  qed
qed

lemma drawBeam_shape:
  assumes "drawBeam sc waistPos waistRadius rayleighRange startZ endZ = Some cmds"
  shows "\<exists>tops ts bots bs.
           cmds = BeginPath # ts @ bs @ closing
           \<and> top_boundary sc waistPos waistRadius rayleighRange endZ tops ts
           \<and> bottom_boundary sc waistPos waistRadius rayleighRange startZ bots bs"
proof -
  from assms obtain upper outline where
    u: "top_envelope sc waistPos waistRadius rayleighRange startZ endZ startZ [BeginPath]
          = Some upper" and
    o: "bottom_envelope sc waistPos waistRadius rayleighRange startZ endZ endZ upper
          = Some outline" and
    c: "cmds = outline @ closing"
    by (auto simp: drawBeam_def closing_def split: option.splits)
  from top_envelope_path [OF u] obtain tops ts where
    "upper = [BeginPath] @ ts" "top_boundary sc waistPos waistRadius rayleighRange endZ tops ts"
    by blast
  moreover from bottom_envelope_path [OF o] obtain bots bs where
    "outline = upper @ bs"
    "bottom_boundary sc waistPos waistRadius rayleighRange startZ bots bs"
    by blast
  ultimately show ?thesis using c by auto
qed

lemma drawCanvas_shape:
  assumes "drawCanvas w h i r = Some cmds"
  shows "\<exists>zs1 ts1 zs1' bs1 zs2 ts2 zs2' bs2.
           cmds = draw_axis_and_lens (the_scene w h i r)
                  @ (BeginPath # ts1 @ bs1 @ closing)
                  @ (BeginPath # ts2 @ bs2 @ closing)
                  @ draw_annotations (the_scene w h i r) i r
           \<and> top_boundary (the_scene w h i r) (s_m i) (w0_m i) (zr r) (lit 0) zs1 ts1
           \<and> bottom_boundary (the_scene w h i r) (s_m i) (w0_m i) (zr r)
               (num_div (num_neg (totalDist (the_scene w h i r))) (lit 2)) zs1' bs1
           \<and> top_boundary (the_scene w h i r) (s_prime r) (w0_prime r) (zr_prime r)
               (num_div (totalDist (the_scene w h i r)) (lit 2)) zs2 ts2
           \<and> bottom_boundary (the_scene w h i r) (s_prime r) (w0_prime r) (zr_prime r)
               (lit 0) zs2' bs2"
proof -
  let ?sc = "the_scene w h i r"
  from assms obtain b1 b2 where
    b1: "drawBeam ?sc (s_m i) (w0_m i) (zr r)
           (num_div (num_neg (totalDist ?sc)) (lit 2)) (lit 0) = Some b1" and
    b2: "drawBeam ?sc (s_prime r) (w0_prime r) (zr_prime r)
           (lit 0) (num_div (totalDist ?sc) (lit 2)) = Some b2" and
    c: "cmds = draw_axis_and_lens ?sc @ b1 @ b2 @ draw_annotations ?sc i r"
    by (auto simp: drawCanvas_def Let_def split: option.splits simp del: lit_0)
  from drawBeam_shape [OF b1] drawBeam_shape [OF b2] c show ?thesis
    by blast
qed

lemma scenario_calc: "calculate (to_SI scenario) \<noteq> None"
  by code_simp

lemma scenario_draw:
  "drawCanvas 4 3 (to_SI scenario) (the (calculate (to_SI scenario)))
     = Some (the (drawCanvas 4 3 (to_SI scenario) (the (calculate (to_SI scenario)))))"
proof -
  from scenario_calc obtain r where r: "calculate (to_SI scenario) = Some r"
    by blast
  with scenario_run have "drawCanvas 4 3 (to_SI scenario) r \<noteq> None"
    by (auto simp: updateVisualization_def blank_page_def split: option.splits)
  with r show ?thesis by auto
qed

lemma fill_tints_no_fill: "Fill \<notin> set cs \<Longrightarrow> fill_tints cur cs = []"
  by (induction cur cs rule: fill_tints.induct) auto

lemma fill_tints_path:
  "list_all (\<lambda>c. target c \<noteq> None) cs \<Longrightarrow> fill_tints cur (cs @ rest) = fill_tints cur rest"
proof (induction cs)
  case Nil
  then show ?case by simp
next
  case (Cons c cs)
  then show ?case by (cases c) simp_all
qed

lemma top_boundary_targets:
  "top_boundary sc wp wr rr ez zs cs \<Longrightarrow> list_all (\<lambda>c. target c \<noteq> None) cs"
  unfolding top_boundary_def
  by (induction zs cs rule: list_all2_induct) auto

lemma bottom_boundary_targets:
  "bottom_boundary sc wp wr rr sz zs cs \<Longrightarrow> list_all (\<lambda>c. target c \<noteq> None) cs"
  unfolding bottom_boundary_def
  by (induction zs cs rule: list_all2_induct) auto

lemma fill_tints_beam:
  assumes "list_all (\<lambda>c. target c \<noteq> None) ts" "list_all (\<lambda>c. target c \<noteq> None) bs"
  shows "fill_tints cur ((BeginPath # ts @ bs @ closing) @ rest)
           = ''rgba(255, 100, 100, 0.3)'' # fill_tints ''rgba(255, 100, 100, 0.3)'' rest"
proof -
  have "fill_tints cur ((BeginPath # ts @ bs @ closing) @ rest)
          = fill_tints cur (ts @ (bs @ closing @ rest))"
    by simp
  also have "\<dots> = fill_tints cur (bs @ (closing @ rest))"
    using assms(1) by (simp only: fill_tints_path)
  also have "\<dots> = fill_tints cur (closing @ rest)"
    using assms(2) by (simp only: fill_tints_path)
  finally show ?thesis by (simp add: closing_def)
qed

lemma fill_tints_axis_and_lens:
  "fill_tints cur (draw_axis_and_lens sc @ rest) = fill_tints cur rest"
  by (simp add: draw_axis_and_lens_def Let_def)

lemma fill_tints_annotations: "fill_tints cur (draw_annotations sc i r) = []"
  by (rule fill_tints_no_fill) (simp add: draw_annotations_def drawAnnotationLine_def Let_def)

lemma drawCanvas_tints:
  assumes "drawCanvas w h i r = Some cmds"
  shows "fill_tints cur cmds = [''rgba(255, 100, 100, 0.3)'', ''rgba(255, 100, 100, 0.3)'']"
proof -
  from drawCanvas_shape [OF assms] obtain zs1 ts1 zs1' bs1 zs2 ts2 zs2' bs2 where
    cmds: "cmds = draw_axis_and_lens (the_scene w h i r)
                  @ (BeginPath # ts1 @ bs1 @ closing)
                  @ (BeginPath # ts2 @ bs2 @ closing)
                  @ draw_annotations (the_scene w h i r) i r" and
    t1: "top_boundary (the_scene w h i r) (s_m i) (w0_m i) (zr r) (lit 0) zs1 ts1" and
    b1: "bottom_boundary (the_scene w h i r) (s_m i) (w0_m i) (zr r)
               (num_div (num_neg (totalDist (the_scene w h i r))) (lit 2)) zs1' bs1" and
    t2: "top_boundary (the_scene w h i r) (s_prime r) (w0_prime r) (zr_prime r)
               (num_div (totalDist (the_scene w h i r)) (lit 2)) zs2 ts2" and
    b2: "bottom_boundary (the_scene w h i r) (s_prime r) (w0_prime r) (zr_prime r)
               (lit 0) zs2' bs2"
    by blast
  show ?thesis
    unfolding cmds fill_tints_axis_and_lens
      fill_tints_beam [OF top_boundary_targets [OF t1] bottom_boundary_targets [OF b1]]
      fill_tints_beam [OF top_boundary_targets [OF t2] bottom_boundary_targets [OF b2]]
      fill_tints_annotations ..
qed

text \<open>
  Claim C9 says that the two envelopes are filled with distinct tints. \<^verbatim>\<open>drawBeam\<close> sets
  one fixed fill style before its \<^verbatim>\<open>fill()\<close>: in the scenario the two fills of a redraw
  use the same tint.
\<close>

theorem C9_counterexample:
  "fill_tints ''#000000''
     (the (drawCanvas 4 3 (to_SI scenario) (the (calculate (to_SI scenario)))))
   = [''rgba(255, 100, 100, 0.3)'', ''rgba(255, 100, 100, 0.3)'']"
  using scenario_draw by (rule drawCanvas_tints)

text \<open>
  Claim C9, amended. The two envelopes are each filled with the translucent tint
  \<open>rgba(255, 100, 100, 0.3)\<close>, the same for the input and the output beam; a redraw has
  these two fills and no other.
\<close>

theorem C9_one_tint_for_both_beams:
  assumes "drawCanvas w h i r = Some cmds"
  shows "fill_tints cur cmds = [''rgba(255, 100, 100, 0.3)'', ''rgba(255, 100, 100, 0.3)'']"
  using assms by (rule drawCanvas_tints)

theorem C9_witness:
  "drawCanvas 4 3 (to_SI scenario) (the (calculate (to_SI scenario)))
     = Some (the (drawCanvas 4 3 (to_SI scenario) (the (calculate (to_SI scenario))))) \<and>
   fill_tints ''black''
     (the (drawCanvas 4 3 (to_SI scenario) (the (calculate (to_SI scenario)))))
   = [''rgba(255, 100, 100, 0.3)'', ''rgba(255, 100, 100, 0.3)'']"
  using scenario_draw C9_one_tint_for_both_beams [OF scenario_draw] by (rule conjI)

section \<open>The envelope polygons\<close>

lemma drawBeam_steady:
  assumes "steady sc startZ endZ"
  shows "\<exists>n m. sampled sc startZ endZ n m
           \<and> drawBeam sc wp wr rr startZ endZ = Some (envelope sc wp wr rr startZ endZ n m)"
  using drawBeam_returns [OF assms, of wp wr rr]
  unfolding sampled_def envelope_def by blast

lemma visits_up_unique:
  "visits_up step endZ z n \<Longrightarrow> visits_up step endZ z n' \<Longrightarrow> n = n'"
proof (induction n arbitrary: z n')
  case 0
  then show ?case by (cases n') (simp_all add: visits_up_0 visits_up_Suc)
next
  case (Suc n)
  then show ?case by (cases n') (auto simp: visits_up_0 visits_up_Suc)
qed

lemma visits_down_unique:
  "visits_down step startZ z n \<Longrightarrow> visits_down step startZ z n' \<Longrightarrow> n = n'"
proof (induction n arbitrary: z n')
  case 0
  then show ?case by (cases n') (simp_all add: visits_down_0 visits_down_Suc)
next
  case (Suc n)
  then show ?case by (cases n') (auto simp: visits_down_0 visits_down_Suc)
qed

lemma drawBeam_sampled:
  assumes "steady sc startZ endZ" "sampled sc startZ endZ n m"
  shows "drawBeam sc wp wr rr startZ endZ = Some (envelope sc wp wr rr startZ endZ n m)"
proof -
  from drawBeam_steady [OF assms(1), of wp wr rr] obtain n' m' where
    s: "sampled sc startZ endZ n' m'" and
    d: "drawBeam sc wp wr rr startZ endZ = Some (envelope sc wp wr rr startZ endZ n' m')"
    by blast
  from s assms(2) have "n' = n" "m' = m"
    unfolding sampled_def by (blast intro: visits_up_unique visits_down_unique)+
  with d show ?thesis by simp
qed

lemma drawCanvas_steady:
  assumes "steady (the_scene w h i r)
             (num_div (num_neg (totalDist (the_scene w h i r))) (lit 2)) (lit 0)"
    and "steady (the_scene w h i r) (lit 0) (num_div (totalDist (the_scene w h i r)) (lit 2))"
  shows "\<exists>n1 m1 n2 m2.
           sampled (the_scene w h i r)
             (num_div (num_neg (totalDist (the_scene w h i r))) (lit 2)) (lit 0) n1 m1
         \<and> sampled (the_scene w h i r)
             (lit 0) (num_div (totalDist (the_scene w h i r)) (lit 2)) n2 m2
         \<and> drawCanvas w h i r =
             Some (draw_axis_and_lens (the_scene w h i r)
                   @ envelope (the_scene w h i r) (s_m i) (w0_m i) (zr r)
                       (num_div (num_neg (totalDist (the_scene w h i r))) (lit 2)) (lit 0) n1 m1
                   @ envelope (the_scene w h i r) (s_prime r) (w0_prime r) (zr_prime r)
                       (lit 0) (num_div (totalDist (the_scene w h i r)) (lit 2)) n2 m2
                   @ draw_annotations (the_scene w h i r) i r)"
proof -
  let ?sc = "the_scene w h i r"
  from drawBeam_steady [OF assms(1), of "s_m i" "w0_m i" "zr r"] obtain n1 m1 where
    1: "sampled ?sc (num_div (num_neg (totalDist ?sc)) (lit 2)) (lit 0) n1 m1"
       "drawBeam ?sc (s_m i) (w0_m i) (zr r) (num_div (num_neg (totalDist ?sc)) (lit 2)) (lit 0)
          = Some (envelope ?sc (s_m i) (w0_m i) (zr r)
                    (num_div (num_neg (totalDist ?sc)) (lit 2)) (lit 0) n1 m1)"
    by blast
  from drawBeam_steady [OF assms(2), of "s_prime r" "w0_prime r" "zr_prime r"] obtain n2 m2 where
    2: "sampled ?sc (lit 0) (num_div (totalDist ?sc) (lit 2)) n2 m2"
       "drawBeam ?sc (s_prime r) (w0_prime r) (zr_prime r) (lit 0) (num_div (totalDist ?sc) (lit 2))
          = Some (envelope ?sc (s_prime r) (w0_prime r) (zr_prime r)
                    (lit 0) (num_div (totalDist ?sc) (lit 2)) n2 m2)"
    by blast
  have "drawCanvas w h i r =
      Some (draw_axis_and_lens ?sc
            @ envelope ?sc (s_m i) (w0_m i) (zr r)
                (num_div (num_neg (totalDist ?sc)) (lit 2)) (lit 0) n1 m1
            @ envelope ?sc (s_prime r) (w0_prime r) (zr_prime r)
                (lit 0) (num_div (totalDist ?sc) (lit 2)) n2 m2
            @ draw_annotations ?sc i r)"
    unfolding drawCanvas_def Let_def 1(2) 2(2) by simp
  with 1(1) 2(1) show ?thesis by blast
qed

text \<open>The numbers of the scenario, for the two canvases.\<close>

lemma scenario_input:
  "to_SI scenario =
     \<lparr> lambda_m = Fin False 5976627020719823 (- 73), f_m = Fin False 7205759403792794 (- 56),
       s_m = Fin True 5404319552844595 (- 55), w0_m = Fin False 4611686018427388 (- 63) \<rparr>"
  by code_simp

lemma scenario_result:
  "calculate (to_SI scenario) =
     Some \<lparr> zr = Fin False 5589631599263938 (- 52),
            w0_prime = Fin False 5940242561971645 (- 67),
            alpha = Fin False 5801018126925434 (- 56),
            s_prime = Fin False 7229110038627482 (- 56),
            theta_in = Fin False 7431326041907401 (- 64),
            theta_prime = Fin False 5769283332845036 (- 60),
            zr_prime = Fin False 4637053277706379 (- 59) \<rparr>"
  unfolding scenario_input by code_simp

lemma small_scene_value:
  "small_scene =
     \<lparr> canvasWidth = Fin False 4503599627370496 (- 50),
       canvasHeight = Fin False 6755399441055744 (- 51),
       opticalAxisY = Fin False 6755399441055744 (- 52),
       totalDist = Fin False 5944751508129055 (- 54),
       scaleX = Fin False 6823635799046206 (- 49),
       maxHeight = Fin False 4612022800972242 (- 63),
       scaleY = Fin False 5277270424433119 (- 41),
       lensX = Fin False 4503599627370496 (- 51) \<rparr>"
  unfolding small_scene_def scenario_result option.sel scenario_input by code_simp

lemma wide_scene_value:
  "wide_scene =
     \<lparr> canvasWidth = Fin False 4503599627370496 (- 49),
       canvasHeight = Fin False 6755399441055744 (- 50),
       opticalAxisY = Fin False 6755399441055744 (- 51),
       totalDist = Fin False 5944751508129055 (- 54),
       scaleX = Fin False 6823635799046206 (- 48),
       maxHeight = Fin False 4612022800972242 (- 63),
       scaleY = Fin False 5277270424433119 (- 40),
       lensX = Fin False 4503599627370496 (- 50) \<rparr>"
  unfolding wide_scene_def scenario_result option.sel scenario_input by code_simp

lemma small_numbers:
  "num_div (lit 1) (scaleX small_scene) = Fin False 5944751508129055 (- 56)"
  "num_div (num_neg (totalDist small_scene)) (lit 2) = Fin True 5944751508129055 (- 55)"
  "num_div (totalDist small_scene) (lit 2) = Fin False 5944751508129055 (- 55)"
  unfolding small_scene_value by code_simp+

lemma small_steady:
  "steady small_scene (num_div (num_neg (totalDist small_scene)) (lit 2)) (lit 0)"
  "steady small_scene (lit 0) (num_div (totalDist small_scene) (lit 2))"
  unfolding steady_def small_numbers Let_def lit_0
  by (simp_all add: num_le_valof)

lemma wide_numbers:
  "num_div (lit 1) (scaleX wide_scene) = Fin False 5944751508129055 (- 57)"
  "num_div (num_neg (totalDist wide_scene)) (lit 2) = Fin True 5944751508129055 (- 55)"
  unfolding wide_scene_value by code_simp+

lemma wide_steady:
  "steady wide_scene (num_div (num_neg (totalDist wide_scene)) (lit 2)) (lit 0)"
  unfolding steady_def wide_numbers Let_def lit_0
  by (simp add: num_le_valof)

lemma wide_sampled:
  "sampled wide_scene (num_div (num_neg (totalDist wide_scene)) (lit 2)) (lit 0) 4 5"
  unfolding sampled_def wide_numbers by code_simp

lemma wide_positions:
  "lit 0 \<notin> set (samples_up (num_div (lit 1) (scaleX wide_scene))
                  (num_div (num_neg (totalDist wide_scene)) (lit 2)) 4)"
  "samples_down (num_div (lit 1) (scaleX wide_scene)) (lit 0) 5 ! 0 = lit 0"
  unfolding wide_numbers by code_simp+

lemma wide_offsets:
  "valof (opticalAxisY wide_scene)
     - valof (snd (top_point wide_scene (s_m (to_SI scenario)) (w0_m (to_SI scenario))
                     (zr (the (calculate (to_SI scenario))))
                     (num_div (num_neg (totalDist wide_scene)) (lit 2))))
   \<noteq> valof (snd (bottom_point wide_scene (s_m (to_SI scenario)) (w0_m (to_SI scenario))
                     (zr (the (calculate (to_SI scenario))))
                     (num_div (num_neg (totalDist wide_scene)) (lit 2))))
     - valof (opticalAxisY wide_scene)"
  unfolding wide_numbers scenario_result option.sel scenario_input wide_scene_value
  by code_simp

text \<open>
  Claim C8 says that at every sampled position the top and the bottom boundary point of
  an envelope polygon lie at equal and opposite offsets from the optical axis. The two
  boundaries are sampled by two loops, the top one upwards from \<open>startZ\<close> and the bottom
  one downwards from \<open>endZ\<close>. For the scenario on a canvas 8 pixels wide the polygon of
  the input beam has 4 top vertices and 5 bottom vertices; the bottom boundary has a vertex
  at \<open>z = 0\<close> and the top boundary has none there; and at \<open>startZ\<close>, where both have a
  vertex, the top vertex is not as far above the axis as the bottom vertex is below it.
\<close>

theorem C8_counterexample:
  "drawBeam wide_scene (s_m (to_SI scenario)) (w0_m (to_SI scenario))
     (zr (the (calculate (to_SI scenario))))
     (num_div (num_neg (totalDist wide_scene)) (lit 2)) (lit 0)
   = Some (envelope wide_scene (s_m (to_SI scenario)) (w0_m (to_SI scenario))
             (zr (the (calculate (to_SI scenario))))
             (num_div (num_neg (totalDist wide_scene)) (lit 2)) (lit 0) 4 5) \<and>
   samples_down (num_div (lit 1) (scaleX wide_scene)) (lit 0) 5 ! 0 = lit 0 \<and>
   lit 0 \<notin> set (samples_up (num_div (lit 1) (scaleX wide_scene))
                  (num_div (num_neg (totalDist wide_scene)) (lit 2)) 4) \<and>
   valof (opticalAxisY wide_scene)
     - valof (snd (top_point wide_scene (s_m (to_SI scenario)) (w0_m (to_SI scenario))
                     (zr (the (calculate (to_SI scenario))))
                     (num_div (num_neg (totalDist wide_scene)) (lit 2))))
   \<noteq> valof (snd (bottom_point wide_scene (s_m (to_SI scenario)) (w0_m (to_SI scenario))
                     (zr (the (calculate (to_SI scenario))))
                     (num_div (num_neg (totalDist wide_scene)) (lit 2))))
     - valof (opticalAxisY wide_scene)"
  using drawBeam_sampled [OF wide_steady wide_sampled] wide_positions wide_offsets
  by blast

text \<open>
  Claim C8, amended. When the sample step \<open>1 / scaleX\<close> is steady for both beams, the
  redraw returns, and its commands are the axis and lens, the polygon of the input beam,
  the polygon of the output beam and the annotations. Each polygon is a path of \<open>n\<close> top
  vertices followed by \<open>m\<close> bottom vertices, neither run empty. The top vertices are at the
  positions \<open>startZ\<close>, \<open>startZ + step\<close>, and so on up to the last one at or before \<open>endZ\<close>,
  the bottom vertices at \<open>endZ\<close>, \<open>endZ - step\<close>, and so on down to the last one at or
  after \<open>startZ\<close>. The vertex at a position \<open>z\<close> is at \<open>x = lensX + z * scaleX\<close> in both runs,
  and at \<open>y = opticalAxisY - w(z) * scaleY\<close> in the top run and
  \<open>y = opticalAxisY + w(z) * scaleY\<close> in the bottom run, with the same binary64 offset
  \<open>w(z) * scaleY\<close> subtracted and added (each result rounded), where
  \<open>w(z) = waistRadius * sqrt (1 + ((z - waistPos) / rayleighRange)^2)\<close>. The two runs
  sample their positions separately.
\<close>

theorem C8_envelope_vertices:
  assumes "steady (the_scene w h i r)
             (num_div (num_neg (totalDist (the_scene w h i r))) (lit 2)) (lit 0)"
    and "steady (the_scene w h i r) (lit 0) (num_div (totalDist (the_scene w h i r)) (lit 2))"
  shows "(\<exists>n1 m1 n2 m2.
           sampled (the_scene w h i r)
             (num_div (num_neg (totalDist (the_scene w h i r))) (lit 2)) (lit 0) n1 m1
         \<and> sampled (the_scene w h i r)
             (lit 0) (num_div (totalDist (the_scene w h i r)) (lit 2)) n2 m2
         \<and> drawCanvas w h i r =
             Some (draw_axis_and_lens (the_scene w h i r)
                   @ envelope (the_scene w h i r) (s_m i) (w0_m i) (zr r)
                       (num_div (num_neg (totalDist (the_scene w h i r))) (lit 2)) (lit 0) n1 m1
                   @ envelope (the_scene w h i r) (s_prime r) (w0_prime r) (zr_prime r)
                       (lit 0) (num_div (totalDist (the_scene w h i r)) (lit 2)) n2 m2
                   @ draw_annotations (the_scene w h i r) i r))
       \<and> (\<forall>waistPos waistRadius rayleighRange z.
             top_point (the_scene w h i r) waistPos waistRadius rayleighRange z
               = (num_add (lensX (the_scene w h i r)) (num_mul z (scaleX (the_scene w h i r))),
                  num_sub (opticalAxisY (the_scene w h i r))
                    (num_mul (beam_radius waistPos waistRadius rayleighRange z)
                       (scaleY (the_scene w h i r))))
           \<and> bottom_point (the_scene w h i r) waistPos waistRadius rayleighRange z
               = (num_add (lensX (the_scene w h i r)) (num_mul z (scaleX (the_scene w h i r))),
                  num_add (opticalAxisY (the_scene w h i r))
                    (num_mul (beam_radius waistPos waistRadius rayleighRange z)
                       (scaleY (the_scene w h i r)))))"
proof (rule conjI)
  show "\<exists>n1 m1 n2 m2.
           sampled (the_scene w h i r)
             (num_div (num_neg (totalDist (the_scene w h i r))) (lit 2)) (lit 0) n1 m1
         \<and> sampled (the_scene w h i r)
             (lit 0) (num_div (totalDist (the_scene w h i r)) (lit 2)) n2 m2
         \<and> drawCanvas w h i r =
             Some (draw_axis_and_lens (the_scene w h i r)
                   @ envelope (the_scene w h i r) (s_m i) (w0_m i) (zr r)
                       (num_div (num_neg (totalDist (the_scene w h i r))) (lit 2)) (lit 0) n1 m1
                   @ envelope (the_scene w h i r) (s_prime r) (w0_prime r) (zr_prime r)
                       (lit 0) (num_div (totalDist (the_scene w h i r)) (lit 2)) n2 m2
                   @ draw_annotations (the_scene w h i r) i r)"
    by (rule drawCanvas_steady [OF assms])
qed (simp add: top_point_def bottom_point_def)

theorem C8_witness:
  "steady small_scene (num_div (num_neg (totalDist small_scene)) (lit 2)) (lit 0) \<and>
   steady small_scene (lit 0) (num_div (totalDist small_scene) (lit 2)) \<and>
   (\<exists>n1 m1 n2 m2.
      sampled small_scene (num_div (num_neg (totalDist small_scene)) (lit 2)) (lit 0) n1 m1
    \<and> sampled small_scene (lit 0) (num_div (totalDist small_scene) (lit 2)) n2 m2
    \<and> drawCanvas 4 3 (to_SI scenario) (the (calculate (to_SI scenario))) =
        Some (draw_axis_and_lens small_scene
              @ envelope small_scene (s_m (to_SI scenario)) (w0_m (to_SI scenario))
                  (zr (the (calculate (to_SI scenario))))
                  (num_div (num_neg (totalDist small_scene)) (lit 2)) (lit 0) n1 m1
              @ envelope small_scene (s_prime (the (calculate (to_SI scenario))))
                  (w0_prime (the (calculate (to_SI scenario))))
                  (zr_prime (the (calculate (to_SI scenario))))
                  (lit 0) (num_div (totalDist small_scene) (lit 2)) n2 m2
              @ draw_annotations small_scene (to_SI scenario)
                  (the (calculate (to_SI scenario)))))"
  using small_steady
    C8_envelope_vertices [of 4 3 "to_SI scenario" "the (calculate (to_SI scenario))",
      folded small_scene_def, OF small_steady]
  by blast

section \<open>The span of the drawing\<close>

lemma span_max:
  assumes s: "is_double s" "\<not> isNaN s" and f: "is_double f" "num_lt (Fin False 0 (- 1074)) f"
    and rest: "is_double s'" "is_double B"
  shows "Math_max [num_neg s, s', f, Math_abs (num_add s f), B]
       = Math_max [Math_abs s, s', f, Math_abs (num_add s f), B]"
proof -
  let ?A = "Math_abs (num_add s f)"
  let ?rest = "[s', f, ?A, B]"
  have ds: "list_all is_double ?rest"
    using f rest by (simp add: is_double_abs is_double_num_add)
  have first: "Math_max (z # ?rest) = max_scan z ?rest" if "\<not> isNaN z" for z
    using that by (rule Math_max_first)
  have nn: "\<not> isNaN (num_neg s)" "\<not> isNaN (Math_abs s)"
    using s(2) by (cases s; simp)+
  have goal: "max_scan (num_neg s) ?rest = max_scan (Math_abs s) ?rest"
  proof (cases s)
    case NaN
    with s show ?thesis by simp
  next
    case (Inf sg)
    show ?thesis
    proof (cases sg)
      case True
      then show ?thesis by (simp add: Inf)
    next
      case False
      from positive_cases [OF f(2,1)] have A: "?A = Inf False"
        by (auto simp: Inf False)
      have "max_scan (Inf True) ?rest = max_scan (Inf False) ?rest"
      proof (rule max_scan_agree [where y = "Inf False"])
        show "Inf False \<in> set ?rest" by (simp add: A)
        show "list_all is_double ?rest" by (rule ds)
        show "Inf True = Inf False \<or> (below (Inf True) (Inf False) \<and> below (Inf False) (Inf False))"
          by (simp add: below_def)
      qed simp_all
      then show ?thesis by (simp add: Inf False)
    qed
  next
    case (Fin sg m e)
    show ?thesis
    proof (cases sg)
      case True
      then show ?thesis by (simp add: Fin)
    next
      case False
      from s(1) have m0: "0 \<le> m" by (simp add: Fin)
      show ?thesis
      proof (cases "m = 0")
        case True
        have "max_scan (Fin True 0 e) ?rest = max_scan (Fin False 0 e) ?rest"
        proof (rule max_scan_agree [where y = f])
          show "f \<in> set ?rest" by simp
          show "list_all is_double ?rest" by (rule ds)
          have "num_lt (Fin sg' 0 e) f" for sg'
            using positive_cases [OF f(2,1)] by (auto simp: num_lt_valof)
          moreover have "is_double (Fin sg' 0 e)" for sg'
            using s(1) by (simp add: Fin True)
          ultimately show "Fin True 0 e = Fin False 0 e
              \<or> (below (Fin True 0 e) f \<and> below (Fin False 0 e) f)"
            by (simp add: below_def)
        qed (rule f)+
        then show ?thesis by (simp add: Fin False True)
      next
        case nz: False
        with m0 have mpos: "0 < m" by simp
        have s_eq: "s = Fin False m e" using Fin False by simp
        have sd: "is_double (Fin False m e)" using s(1) by (simp add: Fin False)
        have A: "is_double ?A \<and> num_lt (Fin False 0 (- 1074)) ?A
                 \<and> below (Fin True m e) ?A \<and> below (Fin False m e) ?A"
        proof -
          from positive_cases [OF f(2,1)]
          consider "f = Inf False" | m2 e2 where "f = Fin False m2 e2" "0 < m2"
            by blast
          then show ?thesis
          proof cases
            case 1
            then have "?A = Inf False" by (simp add: s_eq)
            then show ?thesis using sd by (simp add: below_def)
          next
            case (2 m2 e2)
            let ?sum = "num_add (Fin False m e) (Fin False m2 e2)"
            have le: "num_le (Fin False m e) ?sum"
              and shape: "?sum = Inf False \<or> (\<exists>m' e'. ?sum = Fin False m' e')"
              using num_add_pos_ge [OF sd mpos 2(2), of e2] by simp_all
            have dsum: "is_double ?sum" by (rule is_double_num_add)
            from shape show ?thesis
            proof
              assume "?sum = Inf False"
              then have "?A = Inf False" by (simp only: s_eq 2(1) Math_abs.simps)
              then show ?thesis using sd by (simp add: below_def)
            next
              assume "\<exists>m' e'. ?sum = Fin False m' e'"
              then obtain m' e' where sum: "?sum = Fin False m' e'" by blast
              have v: "(of_int m :: rat) * 2 powi e \<le> of_int m' * 2 powi e'"
                using le unfolding sum num_le_valof by simp
              have vpos: "(0::rat) < of_int m * 2 powi e" using mpos by simp
              with v have "(0::rat) < of_int m' * 2 powi e'" by simp
              then have "(0::rat) < of_int m'"
                by (rule zero_less_mult_pos2) simp
              then have m'pos: "0 < m'" by simp
              have same: "Fin False m e = Fin False m' e'"
                if "\<not> num_lt (Fin False m e) (Fin False m' e')"
              proof -
                from that v have "(of_int m :: rat) * 2 powi e = of_int m' * 2 powi e'"
                  unfolding num_lt_valof by simp
                from canonical_unique [OF sd _ this] dsum show ?thesis
                  unfolding sum by simp
              qed
              have neg: "num_lt (Fin True m e) (Fin False m' e')"
                unfolding num_lt_valof using vpos v by simp
              have "?A = Fin False m' e'"
                by (simp only: s_eq 2(1) sum Math_abs.simps)
              then show ?thesis
                using dsum sd m'pos same neg unfolding sum
                by (auto simp: below_def)
            qed
          qed
        qed
        have "max_scan (Fin True m e) ?rest = max_scan (Fin False m e) ?rest"
        proof (rule max_scan_agree [where y = ?A])
          show "?A \<in> set ?rest" by simp
          show "list_all is_double ?rest" by (rule ds)
        qed (use A in simp_all)
        then show ?thesis by (simp add: Fin False)
      qed
    qed
  qed
  show ?thesis
    unfolding first [OF nn(1)] first [OF nn(2)] by (rule goal)
qed

text \<open>
  Claim C6. For every input that passes the guard, the span is 2.2 times the maximum of
  the magnitude of the object distance, the output waist position, the focal length, the
  magnitude of object distance plus focal length, and the magnitude of output waist
  position minus focal length; the horizontal scale is the canvas width divided by the
  span. The code takes the maximum over \<open>-s\<close> in the place of \<open>|s|\<close>: for a positive \<open>s\<close> the
  maximum is the same, since \<open>|s + f|\<close> is then in the list and not below \<open>s\<close>.
\<close>

theorem C6_span_and_scale:
  assumes "is_double (s_m i)" "is_double (f_m i)" "calculate i = Some r"
  shows "totalDist (the_scene w h i r)
           = num_mul
               (Math_max [Math_abs (s_m i), s_prime r, f_m i,
                          Math_abs (num_add (s_m i) (f_m i)),
                          Math_abs (num_sub (s_prime r) (f_m i))])
               (lit (22 / 10))
         \<and> scaleX (the_scene w h i r)
           = num_div (lit (of_nat w)) (totalDist (the_scene w h i r))"
proof -
  from assms(3) have ok: "\<not> rejected i"
    and sp: "s_prime r = num_add (f_m i)
        (num_mul (pow_2 (alpha r)) (num_sub (num_neg (s_m i)) (f_m i)))"
    by (auto simp: calculate_def Let_def split: if_splits)
  from ok have nan: "\<not> isNaN (s_m i)" "\<not> isNaN (f_m i)"
    and fle: "\<not> num_le (f_m i) (lit 0)"
    unfolding rejected_def by (simp_all split: if_splits)
  have fpos: "num_lt (Fin False 0 (- 1074)) (f_m i)"
    using not_le_zero_iff [OF nan(2)] fle by simp
  have "is_double (s_prime r)"
    unfolding sp by (rule is_double_num_add)
  moreover have "is_double (Math_abs (num_sub (s_prime r) (f_m i)))"
    by (intro is_double_abs is_double_num_sub)
  ultimately have "Math_max [num_neg (s_m i), s_prime r, f_m i,
        Math_abs (num_add (s_m i) (f_m i)), Math_abs (num_sub (s_prime r) (f_m i))]
      = Math_max [Math_abs (s_m i), s_prime r, f_m i,
        Math_abs (num_add (s_m i) (f_m i)), Math_abs (num_sub (s_prime r) (f_m i))]"
    using assms(1,2) nan(1) fpos by (intro span_max)
  then show ?thesis
    by (simp add: the_scene_def Let_def)
qed

lemma virtual_object_calc:
  "calculate (to_SI virtual_object) = Some (the (calculate (to_SI virtual_object)))"
proof -
  have "calculate (to_SI virtual_object) \<noteq> None" by code_simp
  then show ?thesis by simp
qed

theorem C6_witness:
  "is_double (s_m (to_SI virtual_object)) \<and> is_double (f_m (to_SI virtual_object)) \<and>
   calculate (to_SI virtual_object) = Some (the (calculate (to_SI virtual_object))) \<and>
   num_lt (lit 0) (s_m (to_SI virtual_object)) \<and>
   totalDist (the_scene 4 3 (to_SI virtual_object) (the (calculate (to_SI virtual_object))))
     = num_mul
         (Math_max [Math_abs (s_m (to_SI virtual_object)),
                    s_prime (the (calculate (to_SI virtual_object))),
                    f_m (to_SI virtual_object),
                    Math_abs (num_add (s_m (to_SI virtual_object)) (f_m (to_SI virtual_object))),
                    Math_abs (num_sub (s_prime (the (calculate (to_SI virtual_object))))
                                (f_m (to_SI virtual_object)))])
         (lit (22 / 10)) \<and>
   scaleX (the_scene 4 3 (to_SI virtual_object) (the (calculate (to_SI virtual_object))))
     = num_div (lit (of_nat 4))
         (totalDist (the_scene 4 3 (to_SI virtual_object)
            (the (calculate (to_SI virtual_object)))))"
proof -
  have d: "is_double (s_m (to_SI virtual_object))" "is_double (f_m (to_SI virtual_object))"
    by code_simp+
  have pos: "num_lt (lit 0) (s_m (to_SI virtual_object))"
    by code_simp
  from d pos virtual_object_calc C6_span_and_scale [OF d virtual_object_calc, of 4 3]
  show ?thesis by blast
qed

section \<open>The scenario in numbers\<close>

text \<open>
  Claim C7 gives the input Rayleigh range of the scenario as about 1240.6 mm, right to
  one decimal. The calculator's value is above 1241.1 mm.
\<close>

theorem C7_counterexample:
  "toFixed (num_mul (zr (the (calculate (to_SI scenario)))) (lit 1000)) 1 = [Lit ''1241.1''] \<and>
   toFixed (num_mul (zr (the (calculate (to_SI scenario)))) (lit 1000)) 1 \<noteq> [Lit ''1240.6''] \<and>
   12411 / 10 < valof (zr (the (calculate (to_SI scenario)))) * 1000"
  by code_simp

text \<open>
  Claim C7, amended. For the field values 632.8, 100, 150 and 0.5 the calculator's input
  Rayleigh range is \<open>5589631599263938 * 2^-52\<close> m, between 1241.1 mm and 1241.2 mm (1241.1
  to one decimal, shown as 1241.15), and all seven derived values are finite numbers.
\<close>

theorem C7_scenario_values:
  "calculate (to_SI scenario) =
     Some \<lparr> zr = Fin False 5589631599263938 (- 52),
            w0_prime = Fin False 5940242561971645 (- 67),
            alpha = Fin False 5801018126925434 (- 56),
            s_prime = Fin False 7229110038627482 (- 56),
            theta_in = Fin False 7431326041907401 (- 64),
            theta_prime = Fin False 5769283332845036 (- 60),
            zr_prime = Fin False 4637053277706379 (- 59) \<rparr> \<and>
   12411 / 10 < valof (Fin False 5589631599263938 (- 52)) * 1000 \<and>
   valof (Fin False 5589631599263938 (- 52)) * 1000 < 12412 / 10 \<and>
   toFixed (num_mul (Fin False 5589631599263938 (- 52)) (lit 1000)) 1 = [Lit ''1241.1''] \<and>
   toFixed (num_mul (Fin False 5589631599263938 (- 52)) (lit 1000)) 2 = [Lit ''1241.15'']"
  by code_simp

end
